theory Spec2Isabelle
  imports Main "HOL-Library.Word"
begin

section \<open>Strings and array primitives of the host language\<close>

text \<open>
  A JavaScript string is a sequence of UTF-16 code units. Literals of the source that are
  plain ASCII are written through \<open>ascii\<close>.
\<close>

type_synonym jschar = "16 word"
type_synonym jsstring = "jschar list"

definition ascii :: "string \<Rightarrow> jsstring" where
  "ascii s = map (\<lambda>c. of_nat (of_char c)) s"

text \<open>
  \<open>String.prototype.trim\<close> strips WhiteSpace and LineTerminator code units from both ends:
  TAB, LF, VT, FF, CR, SP, NBSP, U+1680, U+2000..U+200A, LS, PS, U+202F, U+205F, U+3000
  and the BOM U+FEFF.
\<close>

definition is_js_space :: "jschar \<Rightarrow> bool" where
  "is_js_space c \<longleftrightarrow>
     c \<in> set [0x09, 0x0A, 0x0B, 0x0C, 0x0D, 0x20, 0xA0, 0x1680,
              0x2000, 0x2001, 0x2002, 0x2003, 0x2004, 0x2005, 0x2006, 0x2007,
              0x2008, 0x2009, 0x200A, 0x2028, 0x2029, 0x202F, 0x205F, 0x3000, 0xFEFF]"

definition trim :: "jsstring \<Rightarrow> jsstring" where
  "trim s = rev (dropWhile is_js_space (rev (dropWhile is_js_space s)))"

text \<open>A string used as a condition is truthy iff it is not empty.\<close>

definition truthy :: "jsstring \<Rightarrow> bool" where
  "truthy s \<longleftrightarrow> s \<noteq> []"

text \<open>
  \<open>Array.prototype.slice(start, end)\<close>: a negative index counts from the end, and both
  indices are clamped to the array.
\<close>

definition slice_js :: "int \<Rightarrow> int \<Rightarrow> 'a list \<Rightarrow> 'a list" where
  "slice_js start end xs =
     (let len = int (length xs);
          k = (if start < 0 then max (len + start) 0 else min start len);
          final = (if end < 0 then max (len + end) 0 else min end len)
      in take (nat (final - k)) (drop (nat k) xs))"

text \<open>\<open>Array.prototype.join(sep)\<close>.\<close>

fun join :: "jsstring \<Rightarrow> jsstring list \<Rightarrow> jsstring" where
  "join sep [] = []"
| "join sep [x] = x"
| "join sep (x # y # ys) = x @ sep @ join sep (y # ys)"

text \<open>
  \<open>Date.now().toString()\<close>: the clock value is a non-negative integer number of
  milliseconds, printed in decimal.
\<close>

definition digit :: "nat \<Rightarrow> jschar" where
  "digit d = of_nat (48 + d)"

function toString :: "nat \<Rightarrow> jsstring" where
  "toString n = (if n < 10 then [digit n] else toString (n div 10) @ [digit (n mod 10)])"
  by pat_completeness auto
termination
  by (relation "measure (\<lambda>n. n)") auto

declare toString.simps [simp del]

section \<open>Data model\<close>

record Task =
  task_id :: jsstring
  task_title :: jsstring
  completed :: bool

record Column =
  col_id :: jsstring
  col_title :: jsstring
  tasks :: "Task list"

record Section =
  sec_id :: jsstring
  sec_title :: jsstring
  columns :: "Column list"

type_synonym Board = "Section list"

record Dragged =
  task :: Task
  fromSection :: jsstring
  fromColumn :: jsstring

text \<open>
  The component state the operations read and write: the stored sections and the task
  being dragged.
\<close>

record State =
  sections :: Board
  draggedTask :: "Dragged option"

text \<open>The board a first run starts from.\<close>

definition initialSections :: Board where
  "initialSections =
     [\<lparr>sec_id = ascii ''1'', sec_title = ascii ''Project Planning'',
       columns =
         [\<lparr>col_id = ascii ''c1'', col_title = ascii ''To Do'',
           tasks = [\<lparr>task_id = ascii ''t1'', task_title = ascii ''Sample task 1'',
                     completed = False\<rparr>,
                    \<lparr>task_id = ascii ''t3'', task_title = ascii ''Completed sample task'',
                     completed = True\<rparr>]\<rparr>,
          \<lparr>col_id = ascii ''c2'', col_title = ascii ''In Progress'',
           tasks = [\<lparr>task_id = ascii ''t2'', task_title = ascii ''Sample task 2'',
                     completed = False\<rparr>]\<rparr>,
          \<lparr>col_id = ascii ''c3'', col_title = ascii ''Done'', tasks = []\<rparr>]\<rparr>,
      \<lparr>sec_id = ascii ''2'', sec_title = ascii ''Development'',
       columns =
         [\<lparr>col_id = ascii ''c4'', col_title = ascii ''Backlog'', tasks = []\<rparr>,
          \<lparr>col_id = ascii ''c5'', col_title = ascii ''In Development'', tasks = []\<rparr>]\<rparr>]"

section \<open>Operations of the board\<close>

text \<open>
  Each operation is the value handed to \<open>setSections\<close>, as a function of the current
  sections; where the source guards the call, the guard's other branch returns the sections
  as they are. Every call of \<open>Date.now()\<close> is an argument: \<open>addColumn\<close> and
  \<open>addTask\<close> read the clock once, \<open>addSection\<close> reads it twice, first for the id of
  the section and then for the id of its column.
\<close>

definition addSection :: "nat \<Rightarrow> nat \<Rightarrow> Board \<Rightarrow> Board" where
  "addSection now1 now2 secs =
     secs @ [\<lparr>sec_id = toString now1, sec_title = ascii ''New Section'',
              columns = [\<lparr>col_id = ascii ''col-'' @ toString now2,
                          col_title = ascii ''New Column'', tasks = []\<rparr>]\<rparr>]"

definition deleteSection :: "jsstring \<Rightarrow> Board \<Rightarrow> Board" where
  "deleteSection sectionId secs = filter (\<lambda>section. sec_id section \<noteq> sectionId) secs"

definition clearCompletedTasks :: "jsstring \<Rightarrow> Board \<Rightarrow> Board" where
  "clearCompletedTasks sectionId secs =
     map (\<lambda>section.
            if sec_id section = sectionId
            then section\<lparr>columns :=
                   map (\<lambda>col. col\<lparr>tasks := filter (\<lambda>task. \<not> completed task) (tasks col)\<rparr>)
                       (columns section)\<rparr>
            else section) secs"

definition editSectionTitle :: "jsstring \<Rightarrow> jsstring \<Rightarrow> Board \<Rightarrow> Board" where
  "editSectionTitle sectionId newTitle secs =
     (if truthy (trim newTitle)
      then map (\<lambda>section.
                  if sec_id section = sectionId then section\<lparr>sec_title := newTitle\<rparr>
                  else section) secs
      else secs)"

definition addColumn :: "nat \<Rightarrow> jsstring \<Rightarrow> Board \<Rightarrow> Board" where
  "addColumn now sectionId secs =
     (let newColumn = \<lparr>col_id = ascii ''col-'' @ toString now,
                       col_title = ascii ''New Column'', tasks = []\<rparr>
      in map (\<lambda>section.
                if sec_id section = sectionId
                then section\<lparr>columns := columns section @ [newColumn]\<rparr>
                else section) secs)"

definition removeColumn :: "jsstring \<Rightarrow> Board \<Rightarrow> Board" where
  "removeColumn sectionId secs =
     map (\<lambda>section.
            if sec_id section = sectionId \<and> length (columns section) > 1
            then section\<lparr>columns := slice_js 0 (- 1) (columns section)\<rparr>
            else section) secs"

definition editColumnTitle :: "jsstring \<Rightarrow> jsstring \<Rightarrow> jsstring \<Rightarrow> Board \<Rightarrow> Board" where
  "editColumnTitle sectionId columnId newTitle secs =
     (if truthy (trim newTitle)
      then map (\<lambda>section.
                  if sec_id section = sectionId
                  then section\<lparr>columns :=
                         map (\<lambda>col. if col_id col = columnId then col\<lparr>col_title := newTitle\<rparr>
                                     else col)
                             (columns section)\<rparr>
                  else section) secs
      else secs)"

definition addTask :: "nat \<Rightarrow> jsstring \<Rightarrow> jsstring \<Rightarrow> jsstring \<Rightarrow> Board \<Rightarrow> Board" where
  "addTask now sectionId columnId taskTitle secs =
     (if truthy (trim taskTitle)
      then (let newTask = \<lparr>task_id = ascii ''task-'' @ toString now,
                            task_title = taskTitle, completed = False\<rparr>
            in map (\<lambda>section.
                      if sec_id section = sectionId
                      then section\<lparr>columns :=
                             map (\<lambda>col. if col_id col = columnId
                                         then col\<lparr>tasks := tasks col @ [newTask]\<rparr>
                                         else col)
                                 (columns section)\<rparr>
                      else section) secs)
      else secs)"

definition deleteTask :: "jsstring \<Rightarrow> jsstring \<Rightarrow> jsstring \<Rightarrow> Board \<Rightarrow> Board" where
  "deleteTask sectionId columnId taskId secs =
     map (\<lambda>section.
            if sec_id section = sectionId
            then section\<lparr>columns :=
                   map (\<lambda>col. if col_id col = columnId
                               then col\<lparr>tasks := filter (\<lambda>task. task_id task \<noteq> taskId) (tasks col)\<rparr>
                               else col)
                       (columns section)\<rparr>
            else section) secs"

definition toggleTaskCompletion :: "jsstring \<Rightarrow> jsstring \<Rightarrow> jsstring \<Rightarrow> Board \<Rightarrow> Board" where
  "toggleTaskCompletion sectionId columnId taskId secs =
     map (\<lambda>section.
            if sec_id section = sectionId
            then section\<lparr>columns :=
                   map (\<lambda>col. if col_id col = columnId
                               then col\<lparr>tasks :=
                                      map (\<lambda>task. if task_id task = taskId
                                                  then task\<lparr>completed := \<not> completed task\<rparr>
                                                  else task)
                                          (tasks col)\<rparr>
                               else col)
                       (columns section)\<rparr>
            else section) secs"

definition editTaskTitle ::
  "jsstring \<Rightarrow> jsstring \<Rightarrow> jsstring \<Rightarrow> jsstring \<Rightarrow> Board \<Rightarrow> Board" where
  "editTaskTitle sectionId columnId taskId newTitle secs =
     (if truthy (trim newTitle)
      then map (\<lambda>section.
                  if sec_id section = sectionId
                  then section\<lparr>columns :=
                         map (\<lambda>col. if col_id col = columnId
                                     then col\<lparr>tasks :=
                                            map (\<lambda>task. if task_id task = taskId
                                                        then task\<lparr>task_title := newTitle\<rparr>
                                                        else task)
                                                (tasks col)\<rparr>
                                     else col)
                             (columns section)\<rparr>
                  else section) secs
      else secs)"

subsection \<open>Drag and drop\<close>

definition handleDragStart :: "Task \<Rightarrow> jsstring \<Rightarrow> jsstring \<Rightarrow> State \<Rightarrow> State" where
  "handleDragStart t fromSec fromCol st =
     st\<lparr>draggedTask := Some \<lparr>task = t, fromSection = fromSec, fromColumn = fromCol\<rparr>\<rparr>"

text \<open>The two passes of \<open>handleDrop\<close>: remove from the source, then add to the target.\<close>

definition updatedSections :: "Dragged \<Rightarrow> Board \<Rightarrow> Board" where
  "updatedSections d secs =
     map (\<lambda>section.
            if sec_id section = fromSection d
            then section\<lparr>columns :=
                   map (\<lambda>col. if col_id col = fromColumn d
                               then col\<lparr>tasks :=
                                      filter (\<lambda>t. task_id t \<noteq> task_id (task d)) (tasks col)\<rparr>
                               else col)
                       (columns section)\<rparr>
            else section) secs"

definition finalSections :: "Dragged \<Rightarrow> jsstring \<Rightarrow> jsstring \<Rightarrow> Board \<Rightarrow> Board" where
  "finalSections d toSectionId toColumnId updated =
     map (\<lambda>section.
            if sec_id section = toSectionId
            then section\<lparr>columns :=
                   map (\<lambda>col. if col_id col = toColumnId
                               then col\<lparr>tasks := tasks col @ [task d]\<rparr>
                               else col)
                       (columns section)\<rparr>
            else section) updated"

definition handleDrop :: "jsstring \<Rightarrow> jsstring \<Rightarrow> State \<Rightarrow> State" where
  "handleDrop toSectionId toColumnId st =
     (case draggedTask st of
        None \<Rightarrow> st
      | Some d \<Rightarrow>
          st\<lparr>sections := finalSections d toSectionId toColumnId (updatedSections d (sections st)),
             draggedTask := None\<rparr>)"

text \<open>
  \<open>moveTask\<close> is the drop of a task picked up from \<open>(fromSectionId, fromColumnId)\<close> onto
  \<open>(toSectionId, toColumnId)\<close>: drag start followed by drop.
\<close>

definition moveTask ::
  "Task \<Rightarrow> jsstring \<Rightarrow> jsstring \<Rightarrow> jsstring \<Rightarrow> jsstring \<Rightarrow> Board \<Rightarrow> Board" where
  "moveTask t fromSectionId fromColumnId toSectionId toColumnId secs =
     sections (handleDrop toSectionId toColumnId
                 (handleDragStart t fromSectionId fromColumnId
                    \<lparr>sections = secs, draggedTask = None\<rparr>))"

subsection \<open>Creation events\<close>

text \<open>
  A creation is one of the three operations that generate an id, together with the clock
  values it reads; a session's creations are applied in order, each to the board the
  previous one left.
\<close>

datatype Creation =
    AddSection nat nat
  | AddColumn nat jsstring
  | AddTask nat jsstring jsstring jsstring

fun create :: "Creation \<Rightarrow> Board \<Rightarrow> Board" where
  "create (AddSection now1 now2) secs = addSection now1 now2 secs"
| "create (AddColumn now sectionId) secs = addColumn now sectionId secs"
| "create (AddTask now sectionId columnId taskTitle) secs =
     addTask now sectionId columnId taskTitle secs"

fun creations :: "Creation list \<Rightarrow> Board \<Rightarrow> Board" where
  "creations [] secs = secs"
| "creations (c # cs) secs = creations cs (create c secs)"

subsection \<open>Markdown export of a section\<close>

text \<open>
  The text handed to the clipboard. The two nested \<open>forEach\<close> loops push onto
  \<open>markdownLines\<close>; they are left folds over the columns and over each column's tasks.
\<close>

definition markdownLine :: "Column \<Rightarrow> Task \<Rightarrow> jsstring" where
  "markdownLine column t =
     (let checkbox = (if completed t then ascii ''[x]'' else ascii ''[ ]'')
      in ascii ''- '' @ checkbox @ ascii '' '' @ col_title column @ ascii '': '' @ task_title t)"

definition markdownLines :: "Section \<Rightarrow> jsstring list" where
  "markdownLines section =
     foldl (\<lambda>acc column. foldl (\<lambda>acc t. acc @ [markdownLine column t]) acc (tasks column))
           [] (columns section)"

definition copySectionAsMarkdown :: "Section \<Rightarrow> jsstring" where
  "copySectionAsMarkdown section = join [0x0A] (markdownLines section)"

section \<open>JSON text\<close>

text \<open>
  The values \<open>JSON.parse\<close> produces and \<open>JSON.stringify\<close> prints. How a number
  literal becomes a number, and how a number is printed, belongs to the platform's floating
  point arithmetic: both are parameters (\<open>num\<close> and \<open>ns\<close>), and the number type is
  \<open>'n\<close>. An object lists its properties in the order they were created.
\<close>

datatype 'n json =
    JNull
  | JBool bool
  | JNum 'n
  | JStr jsstring
  | JArr "'n json list"
  | JObj "(jsstring \<times> 'n json) list"

subsection \<open>Serialising\<close>

definition hex_digit :: "nat \<Rightarrow> jschar" where
  "hex_digit d = (if d < 10 then of_nat (48 + d) else of_nat (87 + d))"

definition unicode_escape :: "jschar \<Rightarrow> jsstring" where
  "unicode_escape c =
     (let n = unat c
      in [0x5C, 0x75, hex_digit (n div 4096), hex_digit (n div 256 mod 16),
          hex_digit (n div 16 mod 16), hex_digit (n mod 16)])"

definition is_leading_surrogate :: "jschar \<Rightarrow> bool" where
  "is_leading_surrogate c \<longleftrightarrow> 0xD800 \<le> c \<and> c \<le> 0xDBFF"

definition is_trailing_surrogate :: "jschar \<Rightarrow> bool" where
  "is_trailing_surrogate c \<longleftrightarrow> 0xDC00 \<le> c \<and> c \<le> 0xDFFF"

definition quote_unit :: "jschar \<Rightarrow> jsstring" where
  "quote_unit c =
     (if c = 0x08 then [0x5C, 0x62]
      else if c = 0x09 then [0x5C, 0x74]
      else if c = 0x0A then [0x5C, 0x6E]
      else if c = 0x0C then [0x5C, 0x66]
      else if c = 0x0D then [0x5C, 0x72]
      else if c = 0x22 then [0x5C, 0x22]
      else if c = 0x5C then [0x5C, 0x5C]
      else if c < 0x20 \<or> is_leading_surrogate c \<or> is_trailing_surrogate c then unicode_escape c
      else [c])"

fun quote_units :: "jsstring \<Rightarrow> jsstring" where
  "quote_units [] = []"
| "quote_units [c] = quote_unit c"
| "quote_units (c # d # cs) =
     (if is_leading_surrogate c \<and> is_trailing_surrogate d then c # d # quote_units cs
      else quote_unit c @ quote_units (d # cs))"

definition QuoteJSONString :: "jsstring \<Rightarrow> jsstring" where
  "QuoteJSONString s = [0x22] @ quote_units s @ [0x22]"

fun SerializeJSONProperty :: "('n \<Rightarrow> jsstring) \<Rightarrow> jsstring \<Rightarrow> jsstring \<Rightarrow> 'n json \<Rightarrow> jsstring" where
  "SerializeJSONProperty ns gap indent JNull = ascii ''null''"
| "SerializeJSONProperty ns gap indent (JBool b) = (if b then ascii ''true'' else ascii ''false'')"
| "SerializeJSONProperty ns gap indent (JNum n) = ns n"
| "SerializeJSONProperty ns gap indent (JStr s) = QuoteJSONString s"
| "SerializeJSONProperty ns gap indent (JArr vs) =
     (if vs = [] then ascii ''[]''
      else [0x5B, 0x0A] @ (indent @ gap) @
           join ([0x2C, 0x0A] @ (indent @ gap))
                (map (SerializeJSONProperty ns gap (indent @ gap)) vs) @
           [0x0A] @ indent @ [0x5D])"
| "SerializeJSONProperty ns gap indent (JObj ms) =
     (if ms = [] then ascii ''{}''
      else [0x7B, 0x0A] @ (indent @ gap) @
           join ([0x2C, 0x0A] @ (indent @ gap))
                (map (\<lambda>(k, v). QuoteJSONString k @ [0x3A, 0x20] @
                                 SerializeJSONProperty ns gap (indent @ gap) v) ms) @
           [0x0A] @ indent @ [0x7D])"

definition JSON_stringify2 :: "('n \<Rightarrow> jsstring) \<Rightarrow> 'n json \<Rightarrow> jsstring" where
  "JSON_stringify2 ns v = SerializeJSONProperty ns (ascii ''  '') [] v"

subsection \<open>Parsing\<close>

definition is_json_space :: "jschar \<Rightarrow> bool" where
  "is_json_space c \<longleftrightarrow> c = 0x09 \<or> c = 0x0A \<or> c = 0x0D \<or> c = 0x20"

definition skip_ws :: "jsstring \<Rightarrow> jsstring" where
  "skip_ws s = dropWhile is_json_space s"

definition is_digit :: "jschar \<Rightarrow> bool" where
  "is_digit c \<longleftrightarrow> 0x30 \<le> c \<and> c \<le> 0x39"

definition hex_value :: "jschar \<Rightarrow> nat option" where
  "hex_value c =
     (if 0x30 \<le> c \<and> c \<le> 0x39 then Some (unat c - 48)
      else if 0x61 \<le> c \<and> c \<le> 0x66 then Some (unat c - 87)
      else if 0x41 \<le> c \<and> c \<le> 0x46 then Some (unat c - 55)
      else None)"

definition hex4 :: "jschar \<Rightarrow> jschar \<Rightarrow> jschar \<Rightarrow> jschar \<Rightarrow> jschar option" where
  "hex4 a b c d =
     (case (hex_value a, hex_value b, hex_value c, hex_value d) of
        (Some x, Some y, Some z, Some w) \<Rightarrow> Some (of_nat (x * 4096 + y * 256 + z * 16 + w))
      | _ \<Rightarrow> None)"

definition simple_escape :: "jschar \<Rightarrow> jschar option" where
  "simple_escape e =
     (if e = 0x22 then Some 0x22
      else if e = 0x5C then Some 0x5C
      else if e = 0x2F then Some 0x2F
      else if e = 0x62 then Some 0x08
      else if e = 0x66 then Some 0x0C
      else if e = 0x6E then Some 0x0A
      else if e = 0x72 then Some 0x0D
      else if e = 0x74 then Some 0x09
      else None)"

definition cons_unit :: "jschar \<Rightarrow> (jsstring \<times> jsstring) option \<Rightarrow> (jsstring \<times> jsstring) option" where
  "cons_unit u r = (case r of None \<Rightarrow> None | Some (s, rest) \<Rightarrow> Some (u # s, rest))"

text \<open>The characters of a string literal after its opening quote, up to the closing quote.\<close>

fun parse_chars :: "jsstring \<Rightarrow> (jsstring \<times> jsstring) option" where
  "parse_chars [] = None"
| "parse_chars (c # cs) =
     (if c = 0x22 then Some ([], cs)
      else if c = 0x5C then
        (case cs of
           [] \<Rightarrow> None
         | e # es \<Rightarrow>
             if e = 0x75 then
               (case es of
                  h1 # h2 # h3 # h4 # r \<Rightarrow>
                    (case hex4 h1 h2 h3 h4 of
                       None \<Rightarrow> None
                     | Some u \<Rightarrow> cons_unit u (parse_chars r))
                | _ \<Rightarrow> None)
             else
               (case simple_escape e of
                  None \<Rightarrow> None
                | Some u \<Rightarrow> cons_unit u (parse_chars es)))
      else if c < 0x20 then None
      else cons_unit c (parse_chars cs))"

text \<open>
  A number literal: an optional minus, an integer part without leading zeros, an optional
  fraction and an optional exponent. The result is the literal and the text after it.
\<close>

definition scan_digits :: "jsstring \<Rightarrow> (jsstring \<times> jsstring) option" where
  "scan_digits s =
     (if takeWhile is_digit s = [] then None
      else Some (takeWhile is_digit s, dropWhile is_digit s))"

definition scan_int :: "jsstring \<Rightarrow> (jsstring \<times> jsstring) option" where
  "scan_int s =
     (case s of
        [] \<Rightarrow> None
      | c # cs \<Rightarrow> if c = 0x30 then Some ([c], cs) else scan_digits s)"

definition scan_frac :: "jsstring \<Rightarrow> (jsstring \<times> jsstring) option" where
  "scan_frac s =
     (case s of
        c # cs \<Rightarrow>
          if c = 0x2E then
            (case scan_digits cs of None \<Rightarrow> None | Some (ds, r) \<Rightarrow> Some (c # ds, r))
          else Some ([], s)
      | [] \<Rightarrow> Some ([], s))"

definition scan_exp :: "jsstring \<Rightarrow> (jsstring \<times> jsstring) option" where
  "scan_exp s =
     (case s of
        c # cs \<Rightarrow>
          if c = 0x65 \<or> c = 0x45 then
            (case cs of
               g # gs \<Rightarrow>
                 if g = 0x2B \<or> g = 0x2D then
                   (case scan_digits gs of None \<Rightarrow> None | Some (ds, r) \<Rightarrow> Some (c # g # ds, r))
                 else
                   (case scan_digits cs of None \<Rightarrow> None | Some (ds, r) \<Rightarrow> Some (c # ds, r))
             | [] \<Rightarrow> None)
          else Some ([], s)
      | [] \<Rightarrow> Some ([], s))"

definition scan_number :: "jsstring \<Rightarrow> (jsstring \<times> jsstring) option" where
  "scan_number s =
     (let (sign, s1) = (case s of c # cs \<Rightarrow> if c = 0x2D then ([c], cs) else ([], s) | [] \<Rightarrow> ([], s))
      in case scan_int s1 of
           None \<Rightarrow> None
         | Some (i, s2) \<Rightarrow>
             (case scan_frac s2 of
                None \<Rightarrow> None
              | Some (f, s3) \<Rightarrow>
                  (case scan_exp s3 of
                     None \<Rightarrow> None
                   | Some (e, s4) \<Rightarrow> Some (sign @ i @ f @ e, s4))))"

text \<open>
  The keys that are array indices: the decimal text, without leading zeros, of an integer
  below \<open>2^32 - 1\<close>. An object enumerates these keys first, in ascending order, and
  its other keys after them, in the order of their creation.
\<close>

definition decimal_value :: "jsstring \<Rightarrow> nat" where
  "decimal_value s = foldl (\<lambda>n c. 10 * n + (unat c - 48)) 0 s"

definition array_index :: "jsstring \<Rightarrow> nat option" where
  "array_index k =
     (if k \<noteq> [] \<and> list_all is_digit k \<and> (k = [0x30] \<or> hd k \<noteq> 0x30) \<and>
         decimal_value k < 4294967295
      then Some (decimal_value k) else None)"

definition enumerated_before :: "jsstring \<Rightarrow> jsstring \<Rightarrow> bool" where
  "enumerated_before k q =
     (case array_index k of
        None \<Rightarrow> False
      | Some i \<Rightarrow> (case array_index q of None \<Rightarrow> True | Some j \<Rightarrow> i < j))"

text \<open>
  \<open>CreateDataProperty\<close> on the object under construction: a key seen before keeps its
  place and takes the later value; a new key goes to its place in the enumeration.
\<close>

fun insert_property :: "jsstring \<Rightarrow> 'v \<Rightarrow> (jsstring \<times> 'v) list \<Rightarrow> (jsstring \<times> 'v) list" where
  "insert_property k v [] = [(k, v)]"
| "insert_property k v (p # ps) =
     (if enumerated_before k (fst p) then (k, v) # p # ps else p # insert_property k v ps)"

definition set_property :: "jsstring \<Rightarrow> 'v \<Rightarrow> (jsstring \<times> 'v) list \<Rightarrow> (jsstring \<times> 'v) list" where
  "set_property k v obj =
     (if k \<in> set (map fst obj) then map (\<lambda>p. if fst p = k then (k, v) else p) obj
      else insert_property k v obj)"

definition object_of :: "(jsstring \<times> 'v) list \<Rightarrow> (jsstring \<times> 'v) list" where
  "object_of ms = foldl (\<lambda>obj (k, v). set_property k v obj) [] ms"

text \<open>The values that are a single token: \<open>true\<close>, \<open>false\<close>, \<open>null\<close> and numbers.\<close>

definition parse_literal :: "(jsstring \<Rightarrow> 'n) \<Rightarrow> jsstring \<Rightarrow> ('n json \<times> jsstring) option" where
  "parse_literal num s =
     (if take 4 s = ascii ''true'' then Some (JBool True, drop 4 s)
      else if take 5 s = ascii ''false'' then Some (JBool False, drop 5 s)
      else if take 4 s = ascii ''null'' then Some (JNull, drop 4 s)
      else (case scan_number s of
              None \<Rightarrow> None
            | Some (lit, r) \<Rightarrow> Some (JNum (num lit), r)))"

text \<open>
  The recursive descent over values, array elements and object members. The first argument
  bounds the number of nested calls; \<open>JSON_parse\<close> starts it above the length of the text,
  which is enough for every text (\<open>JSON_parse_bound_free\<close> below).
\<close>

fun parse_value :: "(jsstring \<Rightarrow> 'n) \<Rightarrow> nat \<Rightarrow> jsstring \<Rightarrow> ('n json \<times> jsstring) option"
  and parse_elements :: "(jsstring \<Rightarrow> 'n) \<Rightarrow> nat \<Rightarrow> jsstring \<Rightarrow> ('n json list \<times> jsstring) option"
  and parse_members ::
    "(jsstring \<Rightarrow> 'n) \<Rightarrow> nat \<Rightarrow> jsstring \<Rightarrow> ((jsstring \<times> 'n json) list \<times> jsstring) option"
where
  "parse_value num 0 s = None"
| "parse_value num (Suc fuel) s =
     (case skip_ws s of
        [] \<Rightarrow> None
      | c # cs \<Rightarrow>
          if c = 0x22 then
            (case parse_chars cs of None \<Rightarrow> None | Some (str, r) \<Rightarrow> Some (JStr str, r))
          else if c = 0x5B then
            (case skip_ws cs of
               [] \<Rightarrow> None
             | d # ds \<Rightarrow>
                 if d = 0x5D then Some (JArr [], ds)
                 else (case parse_elements num fuel cs of
                         None \<Rightarrow> None
                       | Some (vs, r) \<Rightarrow> Some (JArr vs, r)))
          else if c = 0x7B then
            (case skip_ws cs of
               [] \<Rightarrow> None
             | d # ds \<Rightarrow>
                 if d = 0x7D then Some (JObj [], ds)
                 else (case parse_members num fuel cs of
                         None \<Rightarrow> None
                       | Some (ms, r) \<Rightarrow> Some (JObj (object_of ms), r)))
          else parse_literal num (c # cs))"
| "parse_elements num 0 s = None"
| "parse_elements num (Suc fuel) s =
     (case parse_value num fuel s of
        None \<Rightarrow> None
      | Some (v, r) \<Rightarrow>
          (case skip_ws r of
             [] \<Rightarrow> None
           | c # cs \<Rightarrow>
               if c = 0x2C then
                 (case parse_elements num fuel cs of
                    None \<Rightarrow> None
                  | Some (vs, r') \<Rightarrow> Some (v # vs, r'))
               else if c = 0x5D then Some ([v], cs)
               else None))"
| "parse_members num 0 s = None"
| "parse_members num (Suc fuel) s =
     (case skip_ws s of
        [] \<Rightarrow> None
      | q # qs \<Rightarrow>
          if q = 0x22 then
            (case parse_chars qs of
               None \<Rightarrow> None
             | Some (k, r) \<Rightarrow>
                 (case skip_ws r of
                    [] \<Rightarrow> None
                  | c # cs \<Rightarrow>
                      if c = 0x3A then
                        (case parse_value num fuel cs of
                           None \<Rightarrow> None
                         | Some (v, r') \<Rightarrow>
                             (case skip_ws r' of
                                [] \<Rightarrow> None
                              | e # es \<Rightarrow>
                                  if e = 0x2C then
                                    (case parse_members num fuel es of
                                       None \<Rightarrow> None
                                     | Some (ms, r'') \<Rightarrow> Some ((k, v) # ms, r''))
                                  else if e = 0x7D then Some ([(k, v)], es)
                                  else None))
                      else None))
          else None)"

definition JSON_parse :: "(jsstring \<Rightarrow> 'n) \<Rightarrow> jsstring \<Rightarrow> 'n json option" where
  "JSON_parse num text =
     (case parse_value num (Suc (length text)) text of
        None \<Rightarrow> None
      | Some (v, r) \<Rightarrow> if skip_ws r = [] then Some v else None)"

subsection \<open>The board as a value\<close>

text \<open>
  How a board of the data model looks as a value: an array of objects with the properties
  of the interfaces \<open>Section\<close>, \<open>Column\<close> and \<open>Task\<close>, in their order.
\<close>

definition task_json :: "Task \<Rightarrow> 'n json" where
  "task_json t =
     JObj [(ascii ''id'', JStr (task_id t)), (ascii ''title'', JStr (task_title t)),
           (ascii ''completed'', JBool (completed t))]"

definition column_json :: "Column \<Rightarrow> 'n json" where
  "column_json c =
     JObj [(ascii ''id'', JStr (col_id c)), (ascii ''title'', JStr (col_title c)),
           (ascii ''tasks'', JArr (map task_json (tasks c)))]"

definition section_json :: "Section \<Rightarrow> 'n json" where
  "section_json s =
     JObj [(ascii ''id'', JStr (sec_id s)), (ascii ''title'', JStr (sec_title s)),
           (ascii ''columns'', JArr (map column_json (columns s)))]"

definition board_json :: "Board \<Rightarrow> 'n json" where
  "board_json secs = JArr (map section_json secs)"

subsection \<open>Export and import\<close>

text \<open>
  \<open>exportData\<close> is the text handed to the download, \<open>JSON.stringify(sections, null, 2)\<close>.
  \<open>importData\<close> takes the text of the chosen file (\<open>None\<close> when no file was chosen) and
  the current sections; it returns the sections afterwards and the alert shown, if any.
\<close>

definition exportData :: "('n \<Rightarrow> jsstring) \<Rightarrow> 'n json \<Rightarrow> jsstring" where
  "exportData ns secs = JSON_stringify2 ns secs"

definition isArray :: "'n json \<Rightarrow> bool" where
  "isArray v = (case v of JArr _ \<Rightarrow> True | _ \<Rightarrow> False)"

definition invalid_format_alert :: jsstring where
  "invalid_format_alert = ascii ''Invalid JSON format. Please select a valid FocusTask export file.''"

definition read_error_alert :: jsstring where
  "read_error_alert = ascii ''Error reading file. Please select a valid JSON file.''"

definition importData ::
  "(jsstring \<Rightarrow> 'n) \<Rightarrow> jsstring option \<Rightarrow> 'n json \<Rightarrow> 'n json \<times> jsstring option" where
  "importData num file secs =
     (case file of
        None \<Rightarrow> (secs, None)
      | Some text \<Rightarrow>
          (case JSON_parse num text of
             None \<Rightarrow> (secs, Some read_error_alert)
           | Some importedData \<Rightarrow>
               if isArray importedData then (importedData, None)
               else (secs, Some invalid_format_alert)))"

section \<open>Notions used by the properties\<close>

definition all_columns :: "Board \<Rightarrow> Column list" where
  "all_columns secs = concat (map columns secs)"

definition all_tasks :: "Board \<Rightarrow> Task list" where
  "all_tasks secs = concat (map tasks (all_columns secs))"

definition taskCount :: "Board \<Rightarrow> nat" where
  "taskCount secs = length (all_tasks secs)"

text \<open>The columns in which a task with the given id appears.\<close>

definition columns_holding :: "jsstring \<Rightarrow> Board \<Rightarrow> Column list" where
  "columns_holding taskId secs =
     filter (\<lambda>col. \<exists>t \<in> set (tasks col). task_id t = taskId) (all_columns secs)"

text \<open>The columns an operation addresses by a section id and a column id.\<close>

definition matching_columns :: "jsstring \<Rightarrow> jsstring \<Rightarrow> Board \<Rightarrow> Column list" where
  "matching_columns sectionId columnId secs =
     filter (\<lambda>col. col_id col = columnId)
            (all_columns (filter (\<lambda>section. sec_id section = sectionId) secs))"

text \<open>How often a task id occurs on the board.\<close>

definition occurrences :: "jsstring \<Rightarrow> Board \<Rightarrow> nat" where
  "occurrences taskId secs = length (filter (\<lambda>t. task_id t = taskId) (all_tasks secs))"

text \<open>An id that matches no entity of its kind where the operation looks it up.\<close>

definition no_section :: "jsstring \<Rightarrow> Board \<Rightarrow> bool" where
  "no_section sectionId secs \<longleftrightarrow> (\<forall>s \<in> set secs. sec_id s \<noteq> sectionId)"

definition no_column :: "jsstring \<Rightarrow> jsstring \<Rightarrow> Board \<Rightarrow> bool" where
  "no_column sectionId columnId secs \<longleftrightarrow> matching_columns sectionId columnId secs = []"

definition no_task :: "jsstring \<Rightarrow> jsstring \<Rightarrow> jsstring \<Rightarrow> Board \<Rightarrow> bool" where
  "no_task sectionId columnId taskId secs \<longleftrightarrow>
     (\<forall>c \<in> set (matching_columns sectionId columnId secs).
        \<forall>t \<in> set (tasks c). task_id t \<noteq> taskId)"

text \<open>Ids are unique within their kind across the whole board.\<close>

definition unique_ids :: "Board \<Rightarrow> bool" where
  "unique_ids secs \<longleftrightarrow>
     distinct (map sec_id secs) \<and> distinct (map col_id (all_columns secs)) \<and>
     distinct (map task_id (all_tasks secs))"

text \<open>
  The ids a creation inserts are not on the board yet, within their kind. \<open>addSection\<close>
  inserts a section id and a column id; \<open>addColumn\<close> inserts a column id when its
  section is on the board; \<open>addTask\<close> inserts a task id when its title is not blank and
  its column is on the board.
\<close>

fun fresh_creation :: "Creation \<Rightarrow> Board \<Rightarrow> bool" where
  "fresh_creation (AddSection now1 now2) secs \<longleftrightarrow>
     toString now1 \<notin> set (map sec_id secs) \<and>
     ascii ''col-'' @ toString now2 \<notin> set (map col_id (all_columns secs))"
| "fresh_creation (AddColumn now sectionId) secs \<longleftrightarrow>
     (\<not> no_section sectionId secs \<longrightarrow>
        ascii ''col-'' @ toString now \<notin> set (map col_id (all_columns secs)))"
| "fresh_creation (AddTask now sectionId columnId taskTitle) secs \<longleftrightarrow>
     (truthy (trim taskTitle) \<and> \<not> no_column sectionId columnId secs \<longrightarrow>
        ascii ''task-'' @ toString now \<notin> set (map task_id (all_tasks secs)))"

text \<open>Every creation of a run is fresh for the board it is applied to.\<close>

fun fresh_run :: "Creation list \<Rightarrow> Board \<Rightarrow> bool" where
  "fresh_run [] secs \<longleftrightarrow> True"
| "fresh_run (c # cs) secs \<longleftrightarrow> fresh_creation c secs \<and> fresh_run cs (create c secs)"

text \<open>
  The Markdown export as the specification words it: one line per task, columns in stored
  order and tasks in stored order within a column, every line but the last followed by a
  newline.
\<close>

definition markdown_line_spec :: "Column \<Rightarrow> Task \<Rightarrow> jsstring" where
  "markdown_line_spec c t =
     (if completed t then ascii ''- [x] '' else ascii ''- [ ] '') @
     col_title c @ ascii '': '' @ task_title t"

definition markdown_lines_spec :: "Section \<Rightarrow> jsstring list" where
  "markdown_lines_spec s = concat (map (\<lambda>c. map (markdown_line_spec c) (tasks c)) (columns s))"

definition markdown_spec :: "Section \<Rightarrow> jsstring" where
  "markdown_spec s =
     (let ls = markdown_lines_spec s
      in if ls = [] then [] else concat (map (\<lambda>l. l @ [0x0A]) (butlast ls)) @ last ls)"

text \<open>
  The keys of an object as it enumerates them: distinct, array indices first in ascending
  order.
\<close>

definition own_keys :: "jsstring list \<Rightarrow> bool" where
  "own_keys ks \<longleftrightarrow> distinct ks \<and> sorted_wrt (\<lambda>a b. \<not> enumerated_before b a) ks"

text \<open>
  A value without numbers, and a bound on the nesting the descent needs to read its text
  back.
\<close>

fun plain :: "'n json \<Rightarrow> bool" where
  "plain JNull = True"
| "plain (JBool b) = True"
| "plain (JNum n) = False"
| "plain (JStr s) = True"
| "plain (JArr vs) = list_all plain vs"
| "plain (JObj ms) = (own_keys (map fst ms) \<and> list_all (\<lambda>m. plain (snd m)) ms)"

fun need :: "'n json \<Rightarrow> nat" where
  "need (JArr vs) = Suc (sum_list (map (\<lambda>v. Suc (need v)) vs))"
| "need (JObj ms) = Suc (sum_list (map (\<lambda>m. Suc (need (snd m))) ms))"
| "need v = 1"

section \<open>Properties\<close>

lemma slice_butlast: "slice_js 0 (- 1) xs = butlast xs"
proof -
  have "nat (max (int (length xs) - 1) 0) = length xs - 1" by linarith
  then show ?thesis by (simp add: slice_js_def butlast_conv_take)
qed

lemma butlast_snoc_last: "Suc 0 < length xs \<Longrightarrow> butlast xs @ [last xs] = xs"
  by (cases xs) auto

subsection \<open>Removing a column\<close>

text \<open>
  Claim C3. \<open>removeColumn\<close> keeps the number of sections; a section with another id, or
  the named section when it has exactly one column, is left as it is; a named section with
  more than one column keeps its id and title and loses exactly its last column.
\<close>

theorem removeColumn_spec:
  "length (removeColumn sid b) = length b \<and>
   (\<forall>i < length b.
      (sec_id (b ! i) \<noteq> sid \<longrightarrow> removeColumn sid b ! i = b ! i) \<and>
      (sec_id (b ! i) = sid \<and> length (columns (b ! i)) = 1 \<longrightarrow> removeColumn sid b ! i = b ! i) \<and>
      (sec_id (b ! i) = sid \<and> length (columns (b ! i)) > 1 \<longrightarrow>
         sec_id (removeColumn sid b ! i) = sec_id (b ! i) \<and>
         sec_title (removeColumn sid b ! i) = sec_title (b ! i) \<and>
         columns (b ! i) = columns (removeColumn sid b ! i) @ [last (columns (b ! i))]))"
proof (intro conjI allI impI)
  show "length (removeColumn sid b) = length b" by (simp add: removeColumn_def)
next
  fix i assume "i < length b" "sec_id (b ! i) \<noteq> sid"
  then show "removeColumn sid b ! i = b ! i" by (simp add: removeColumn_def)
next
  fix i assume "i < length b" "sec_id (b ! i) = sid \<and> length (columns (b ! i)) = 1"
  then show "removeColumn sid b ! i = b ! i" by (simp add: removeColumn_def)
next
  fix i assume a: "i < length b" "sec_id (b ! i) = sid \<and> 1 < length (columns (b ! i))"
  then have r: "removeColumn sid b ! i = (b ! i)\<lparr>columns := butlast (columns (b ! i))\<rparr>"
    by (simp add: removeColumn_def slice_butlast)
  show "sec_id (removeColumn sid b ! i) = sec_id (b ! i)" by (simp add: r)
  show "sec_title (removeColumn sid b ! i) = sec_title (b ! i)" by (simp add: r)
  from a have "butlast (columns (b ! i)) @ [last (columns (b ! i))] = columns (b ! i)"
    by (simp add: butlast_snoc_last)
  then show "columns (b ! i) = columns (removeColumn sid b ! i) @ [last (columns (b ! i))]"
    by (simp add: r)
qed

theorem removeColumn_spec_witness:
  "(1 < length initialSections \<and> sec_id (initialSections ! 1) = ascii ''2'' \<and>
    length (columns (initialSections ! 1)) > 1 \<and>
    columns (initialSections ! 1) =
      columns (removeColumn (ascii ''2'') initialSections ! 1) @ [last (columns (initialSections ! 1))]) \<and>
   (0 < length (addSection 5 5 []) \<and> sec_id (addSection 5 5 [] ! 0) = toString 5 \<and>
    length (columns (addSection 5 5 [] ! 0)) = 1 \<and>
    removeColumn (toString 5) (addSection 5 5 []) ! 0 = addSection 5 5 [] ! 0) \<and>
   (0 < length initialSections \<and> sec_id (initialSections ! 0) \<noteq> ascii ''2'' \<and>
    removeColumn (ascii ''2'') initialSections ! 0 = initialSections ! 0)"
proof -
  have a: "1 < length initialSections" "sec_id (initialSections ! 1) = ascii ''2''"
    "length (columns (initialSections ! 1)) > 1"
    "0 < length initialSections" "sec_id (initialSections ! 0) \<noteq> ascii ''2''"
    by (simp_all add: initialSections_def ascii_def)
  have b: "0 < length (addSection 5 5 [])" "sec_id (addSection 5 5 [] ! 0) = toString 5"
    "length (columns (addSection 5 5 [] ! 0)) = 1"
    by (simp_all add: addSection_def)
  from a b removeColumn_spec [of "ascii ''2''" initialSections]
    removeColumn_spec [of "toString 5" "addSection 5 5 []"]
  show ?thesis by blast
qed

subsection \<open>Blank titles\<close>

text \<open>
  Claim C7. A rename of a section, a column or a task whose title is empty after trimming
  returns the board unchanged.
\<close>

theorem blank_title_keeps_board:
  "trim t = [] \<Longrightarrow>
     editSectionTitle sid t b = b \<and> editColumnTitle sid cid t b = b \<and>
     editTaskTitle sid cid tid t b = b"
  by (simp add: editSectionTitle_def editColumnTitle_def editTaskTitle_def truthy_def)

theorem blank_title_keeps_board_witness:
  "trim (ascii ''   '') = [] \<and> trim [] = [] \<and>
   editSectionTitle (ascii ''1'') (ascii ''   '') initialSections = initialSections \<and>
   editColumnTitle (ascii ''1'') (ascii ''c1'') (ascii ''   '') initialSections = initialSections \<and>
   editTaskTitle (ascii ''1'') (ascii ''c1'') (ascii ''t1'') [] initialSections = initialSections"
proof -
  have a: "trim (ascii ''   '') = []" "trim [] = []"
    by (simp_all add: trim_def ascii_def is_js_space_def)
  from a blank_title_keeps_board [of "ascii ''   ''" "ascii ''1''" initialSections "ascii ''c1''"]
    blank_title_keeps_board [of "[]" "ascii ''1''" initialSections "ascii ''c1''" "ascii ''t1''"]
  show ?thesis by blast
qed

subsection \<open>Clearing completed tasks\<close>

text \<open>
  Claim C8. \<open>clearCompletedTasks\<close> applied twice is the same as applied once; sections
  with another id are unchanged; in a named section every column keeps its id and title and
  keeps, in order, exactly its tasks that are not completed.
\<close>

theorem clearCompletedTasks_spec:
  "clearCompletedTasks sid (clearCompletedTasks sid b) = clearCompletedTasks sid b \<and>
   length (clearCompletedTasks sid b) = length b \<and>
   (\<forall>i < length b.
      (sec_id (b ! i) \<noteq> sid \<longrightarrow> clearCompletedTasks sid b ! i = b ! i) \<and>
      (sec_id (b ! i) = sid \<longrightarrow>
         sec_id (clearCompletedTasks sid b ! i) = sid \<and>
         sec_title (clearCompletedTasks sid b ! i) = sec_title (b ! i) \<and>
         length (columns (clearCompletedTasks sid b ! i)) = length (columns (b ! i)) \<and>
         (\<forall>j < length (columns (b ! i)).
            col_id (columns (clearCompletedTasks sid b ! i) ! j) = col_id (columns (b ! i) ! j) \<and>
            col_title (columns (clearCompletedTasks sid b ! i) ! j) = col_title (columns (b ! i) ! j) \<and>
            tasks (columns (clearCompletedTasks sid b ! i) ! j) =
              filter (\<lambda>t. \<not> completed t) (tasks (columns (b ! i) ! j)))))"
proof (intro conjI allI impI)
  show "clearCompletedTasks sid (clearCompletedTasks sid b) = clearCompletedTasks sid b"
    by (simp add: clearCompletedTasks_def comp_def if_distrib [of sec_id] cong: if_cong)
qed (simp_all add: clearCompletedTasks_def)

theorem clearCompletedTasks_spec_witness:
  "1 < length initialSections \<and> sec_id (initialSections ! 1) \<noteq> ascii ''1'' \<and>
   clearCompletedTasks (ascii ''1'') initialSections ! 1 = initialSections ! 1 \<and>
   0 < length initialSections \<and> sec_id (initialSections ! 0) = ascii ''1'' \<and>
   0 < length (columns (initialSections ! 0)) \<and>
   tasks (columns (clearCompletedTasks (ascii ''1'') initialSections ! 0) ! 0) =
     filter (\<lambda>t. \<not> completed t) (tasks (columns (initialSections ! 0) ! 0)) \<and>
   tasks (columns (clearCompletedTasks (ascii ''1'') initialSections ! 0) ! 0) =
     [\<lparr>task_id = ascii ''t1'', task_title = ascii ''Sample task 1'', completed = False\<rparr>]"
proof -
  have g: "1 < length initialSections" "sec_id (initialSections ! 1) \<noteq> ascii ''1''"
    "0 < length initialSections" "sec_id (initialSections ! 0) = ascii ''1''"
    "0 < length (columns (initialSections ! 0))"
    by (simp_all add: initialSections_def ascii_def)
  have f: "filter (\<lambda>t. \<not> completed t) (tasks (columns (initialSections ! 0) ! 0)) =
      [\<lparr>task_id = ascii ''t1'', task_title = ascii ''Sample task 1'', completed = False\<rparr>]"
    by (simp add: initialSections_def)
  from g clearCompletedTasks_spec [of "ascii ''1''" initialSections]
  have "clearCompletedTasks (ascii ''1'') initialSections ! 1 = initialSections ! 1 \<and>
    tasks (columns (clearCompletedTasks (ascii ''1'') initialSections ! 0) ! 0) =
     filter (\<lambda>t. \<not> completed t) (tasks (columns (initialSections ! 0) ! 0))"
    by blast
  with g f show ?thesis by simp
qed

subsection \<open>Unknown ids\<close>

lemma no_column_iff:
  "no_column sid cid b \<longleftrightarrow> (\<forall>s \<in> set b. sec_id s = sid \<longrightarrow> (\<forall>c \<in> set (columns s). col_id c \<noteq> cid))"
  by (auto simp: no_column_def matching_columns_def all_columns_def filter_empty_conv)

lemma no_task_iff:
  "no_task sid cid tid b \<longleftrightarrow>
     (\<forall>s \<in> set b. sec_id s = sid \<longrightarrow>
        (\<forall>c \<in> set (columns s). col_id c = cid \<longrightarrow> (\<forall>t \<in> set (tasks c). task_id t \<noteq> tid)))"
  by (auto simp: no_task_def matching_columns_def all_columns_def)

lemma map_unchanged: "(\<And>x. x \<in> set xs \<Longrightarrow> f x = x) \<Longrightarrow> map f xs = xs"
  by (induction xs) auto

lemma map_if_id:
  "(\<And>x. x \<in> set xs \<Longrightarrow> P x \<Longrightarrow> f x = x) \<Longrightarrow> map (\<lambda>x. if P x then f x else x) xs = xs"
  by (induction xs) auto

lemma upd_columns_id: "cs = columns s \<Longrightarrow> s\<lparr>columns := cs\<rparr> = s"
  by simp

lemma upd_tasks_id: "ts = tasks c \<Longrightarrow> c\<lparr>tasks := ts\<rparr> = c"
  by simp

lemma filter_unchanged: "(\<And>x. x \<in> set xs \<Longrightarrow> P x) \<Longrightarrow> filter P xs = xs"
  by (induction xs) auto

lemma unknown_section_noop:
  assumes "no_section sid b"
  shows "deleteSection sid b = b" "clearCompletedTasks sid b = b" "editSectionTitle sid t b = b"
    "addColumn now sid b = b" "removeColumn sid b = b"
  using assms
  by (auto simp: no_section_def deleteSection_def clearCompletedTasks_def editSectionTitle_def
      addColumn_def removeColumn_def intro!: map_if_id upd_columns_id upd_tasks_id filter_unchanged)

lemma unknown_column_noop:
  assumes "no_column sid cid b"
  shows "editColumnTitle sid cid t b = b" "addTask now sid cid t b = b"
  using assms
  by (auto simp: no_column_iff editColumnTitle_def addTask_def intro!: map_if_id upd_columns_id upd_tasks_id)

lemma unknown_task_noop:
  assumes "no_task sid cid tid b"
  shows "deleteTask sid cid tid b = b" "toggleTaskCompletion sid cid tid b = b"
    "editTaskTitle sid cid tid t b = b"
  using assms
  by (auto simp: no_task_iff deleteTask_def toggleTaskCompletion_def editTaskTitle_def
      intro!: map_if_id upd_columns_id upd_tasks_id filter_unchanged)

lemma moveTask_eq:
  "moveTask t fs fc ts tc b =
     finalSections \<lparr>task = t, fromSection = fs, fromColumn = fc\<rparr> ts tc
       (updatedSections \<lparr>task = t, fromSection = fs, fromColumn = fc\<rparr> b)"
  by (simp add: moveTask_def handleDrop_def handleDragStart_def)

lemma updatedSections_unknown:
  "no_task (fromSection d) (fromColumn d) (task_id (task d)) b \<Longrightarrow> updatedSections d b = b"
  by (auto simp: no_task_iff updatedSections_def intro!: map_if_id upd_columns_id upd_tasks_id filter_unchanged)

lemma finalSections_unknown:
  "no_column ts tc b \<Longrightarrow> finalSections d ts tc b = b"
  by (auto simp: no_column_iff finalSections_def intro!: map_if_id upd_columns_id upd_tasks_id)

lemma updatedSections_deleteTask:
  "updatedSections d b = deleteTask (fromSection d) (fromColumn d) (task_id (task d)) b"
  by (simp add: updatedSections_def deleteTask_def)

lemma no_column_deleteTask: "no_column ts tc b \<Longrightarrow> no_column ts tc (deleteTask fs fc tid b)"
  by (auto simp: no_column_iff deleteTask_def split: if_splits) blast+

lemma moveTask_unknown_source:
  "no_task fs fc (task_id tk) b \<Longrightarrow>
   moveTask tk fs fc ts tc b = finalSections \<lparr>task = tk, fromSection = fs, fromColumn = fc\<rparr> ts tc b"
  by (simp add: moveTask_eq updatedSections_unknown)

lemma moveTask_unknown_target:
  "no_column ts tc b \<Longrightarrow> moveTask tk fs fc ts tc b = deleteTask fs fc (task_id tk) b"
  by (simp add: moveTask_eq updatedSections_deleteTask finalSections_unknown no_column_deleteTask)

text \<open>
  The move is not a no-op on an unknown source: after section 1 is deleted, dropping a task
  that was picked up there onto a column of section 2 still appends it.
\<close>

theorem unknown_id_noop_counterexample:
  "no_section (ascii ''1'') (deleteSection (ascii ''1'') initialSections) \<and>
   moveTask \<lparr>task_id = ascii ''t1'', task_title = ascii ''Sample task 1'', completed = False\<rparr>
      (ascii ''1'') (ascii ''c1'') (ascii ''2'') (ascii ''c4'')
      (deleteSection (ascii ''1'') initialSections)
    \<noteq> deleteSection (ascii ''1'') initialSections"
  by (simp add: no_section_def deleteSection_def initialSections_def moveTask_def handleDrop_def
      handleDragStart_def updatedSections_def finalSections_def ascii_def)

text \<open>
  Claim C2, as amended. An operation other than the move, called with an id that matches
  nothing where the operation looks it up, returns the board unchanged. The move returns
  the board unchanged when its source ids and task id match no task and its target ids match
  no column. When only the source ids and task id match no task, the move keeps every
  section and column as it is, except that it appends the supplied task at the end of every
  column that the target ids address. When the target ids match no column, the move equals
  deleting the task with the supplied task's id from the source column.
\<close>

theorem unknown_id_noop:
  "(no_section sid b \<longrightarrow>
      deleteSection sid b = b \<and> clearCompletedTasks sid b = b \<and> editSectionTitle sid t b = b \<and>
      addColumn now sid b = b \<and> removeColumn sid b = b) \<and>
   (no_column sid cid b \<longrightarrow> editColumnTitle sid cid t b = b \<and> addTask now sid cid t b = b) \<and>
   (no_task sid cid tid b \<longrightarrow>
      deleteTask sid cid tid b = b \<and> toggleTaskCompletion sid cid tid b = b \<and>
      editTaskTitle sid cid tid t b = b) \<and>
   (no_task fs fc (task_id tk) b \<and> no_column ts tc b \<longrightarrow> moveTask tk fs fc ts tc b = b) \<and>
   (no_task fs fc (task_id tk) b \<longrightarrow>
      length (moveTask tk fs fc ts tc b) = length b \<and>
      (\<forall>i < length b.
         sec_id (moveTask tk fs fc ts tc b ! i) = sec_id (b ! i) \<and>
         sec_title (moveTask tk fs fc ts tc b ! i) = sec_title (b ! i) \<and>
         length (columns (moveTask tk fs fc ts tc b ! i)) = length (columns (b ! i)) \<and>
         (\<forall>j < length (columns (b ! i)).
            col_id (columns (moveTask tk fs fc ts tc b ! i) ! j) = col_id (columns (b ! i) ! j) \<and>
            col_title (columns (moveTask tk fs fc ts tc b ! i) ! j)
              = col_title (columns (b ! i) ! j) \<and>
            tasks (columns (moveTask tk fs fc ts tc b ! i) ! j) =
              (if sec_id (b ! i) = ts \<and> col_id (columns (b ! i) ! j) = tc
               then tasks (columns (b ! i) ! j) @ [tk]
               else tasks (columns (b ! i) ! j))))) \<and>
   (no_column ts tc b \<longrightarrow> moveTask tk fs fc ts tc b = deleteTask fs fc (task_id tk) b)"
proof (intro conjI)
  show "no_task fs fc (task_id tk) b \<longrightarrow>
      length (moveTask tk fs fc ts tc b) = length b \<and>
      (\<forall>i < length b.
         sec_id (moveTask tk fs fc ts tc b ! i) = sec_id (b ! i) \<and>
         sec_title (moveTask tk fs fc ts tc b ! i) = sec_title (b ! i) \<and>
         length (columns (moveTask tk fs fc ts tc b ! i)) = length (columns (b ! i)) \<and>
         (\<forall>j < length (columns (b ! i)).
            col_id (columns (moveTask tk fs fc ts tc b ! i) ! j) = col_id (columns (b ! i) ! j) \<and>
            col_title (columns (moveTask tk fs fc ts tc b ! i) ! j)
              = col_title (columns (b ! i) ! j) \<and>
            tasks (columns (moveTask tk fs fc ts tc b ! i) ! j) =
              (if sec_id (b ! i) = ts \<and> col_id (columns (b ! i) ! j) = tc
               then tasks (columns (b ! i) ! j) @ [tk]
               else tasks (columns (b ! i) ! j))))"
    by (simp add: moveTask_unknown_source finalSections_def)
  show "no_column ts tc b \<longrightarrow> moveTask tk fs fc ts tc b = deleteTask fs fc (task_id tk) b"
    by (simp add: moveTask_unknown_target)
qed (simp_all add: unknown_section_noop unknown_column_noop unknown_task_noop moveTask_eq
      updatedSections_unknown finalSections_unknown)

theorem unknown_id_noop_witness:
  "(no_section (ascii ''9'') initialSections \<and>
    deleteSection (ascii ''9'') initialSections = initialSections \<and>
    clearCompletedTasks (ascii ''9'') initialSections = initialSections \<and>
    editSectionTitle (ascii ''9'') (ascii ''x'') initialSections = initialSections \<and>
    addColumn 7 (ascii ''9'') initialSections = initialSections \<and>
    removeColumn (ascii ''9'') initialSections = initialSections) \<and>
   (no_column (ascii ''1'') (ascii ''c9'') initialSections \<and>
    editColumnTitle (ascii ''1'') (ascii ''c9'') (ascii ''x'') initialSections = initialSections \<and>
    addTask 7 (ascii ''1'') (ascii ''c9'') (ascii ''x'') initialSections = initialSections) \<and>
   (no_task (ascii ''1'') (ascii ''c1'') (ascii ''t9'') initialSections \<and>
    deleteTask (ascii ''1'') (ascii ''c1'') (ascii ''t9'') initialSections = initialSections \<and>
    toggleTaskCompletion (ascii ''1'') (ascii ''c1'') (ascii ''t9'') initialSections = initialSections \<and>
    editTaskTitle (ascii ''1'') (ascii ''c1'') (ascii ''t9'') (ascii ''x'') initialSections
      = initialSections) \<and>
   (no_task (ascii ''1'') (ascii ''c1'') (ascii ''t9'') initialSections \<and>
    no_column (ascii ''1'') (ascii ''c9'') initialSections \<and>
    moveTask \<lparr>task_id = ascii ''t9'', task_title = ascii ''x'', completed = False\<rparr>
      (ascii ''1'') (ascii ''c1'') (ascii ''1'') (ascii ''c9'') initialSections = initialSections) \<and>
   (1 < length initialSections \<and> 0 < length (columns (initialSections ! 1)) \<and>
    sec_id (initialSections ! 1) = ascii ''2'' \<and>
    col_id (columns (initialSections ! 1) ! 0) = ascii ''c4'' \<and>
    tasks (columns (moveTask \<lparr>task_id = ascii ''t9'', task_title = ascii ''x'', completed = False\<rparr>
                      (ascii ''1'') (ascii ''c1'') (ascii ''2'') (ascii ''c4'') initialSections ! 1) ! 0)
      = tasks (columns (initialSections ! 1) ! 0) @
          [\<lparr>task_id = ascii ''t9'', task_title = ascii ''x'', completed = False\<rparr>]) \<and>
   moveTask \<lparr>task_id = ascii ''t1'', task_title = ascii ''Sample task 1'', completed = False\<rparr>
     (ascii ''1'') (ascii ''c1'') (ascii ''1'') (ascii ''c9'') initialSections
     = deleteTask (ascii ''1'') (ascii ''c1'') (ascii ''t1'') initialSections"
proof -
  let ?t9 = "\<lparr>task_id = ascii ''t9'', task_title = ascii ''x'', completed = False\<rparr>"
  let ?t1 = "\<lparr>task_id = ascii ''t1'', task_title = ascii ''Sample task 1'', completed = False\<rparr>"
  have h: "no_section (ascii ''9'') initialSections"
    "no_column (ascii ''1'') (ascii ''c9'') initialSections"
    "no_task (ascii ''1'') (ascii ''c1'') (ascii ''t9'') initialSections"
    by (simp_all add: no_section_def no_column_def no_task_def matching_columns_def
        all_columns_def initialSections_def ascii_def)
  have g: "1 < length initialSections" "0 < length (columns (initialSections ! 1))"
    "sec_id (initialSections ! 1) = ascii ''2''"
    "col_id (columns (initialSections ! 1) ! 0) = ascii ''c4''"
    by (simp_all add: initialSections_def)
  from h unknown_id_noop [where sid = "ascii ''9''" and b = initialSections and t = "ascii ''x''"
      and now = 7]
  have 1: "deleteSection (ascii ''9'') initialSections = initialSections \<and>
    clearCompletedTasks (ascii ''9'') initialSections = initialSections \<and>
    editSectionTitle (ascii ''9'') (ascii ''x'') initialSections = initialSections \<and>
    addColumn 7 (ascii ''9'') initialSections = initialSections \<and>
    removeColumn (ascii ''9'') initialSections = initialSections"
    by blast
  from h unknown_id_noop [where sid = "ascii ''1''" and cid = "ascii ''c9''"
      and b = initialSections and t = "ascii ''x''" and now = 7]
  have 2: "editColumnTitle (ascii ''1'') (ascii ''c9'') (ascii ''x'') initialSections = initialSections \<and>
    addTask 7 (ascii ''1'') (ascii ''c9'') (ascii ''x'') initialSections = initialSections"
    by blast
  from h unknown_id_noop [where sid = "ascii ''1''" and cid = "ascii ''c1''" and tid = "ascii ''t9''"
      and b = initialSections and t = "ascii ''x''" and fs = "ascii ''1''" and fc = "ascii ''c1''"
      and ts = "ascii ''1''" and tc = "ascii ''c9''" and tk = ?t9]
  have 3: "deleteTask (ascii ''1'') (ascii ''c1'') (ascii ''t9'') initialSections = initialSections \<and>
    toggleTaskCompletion (ascii ''1'') (ascii ''c1'') (ascii ''t9'') initialSections = initialSections \<and>
    editTaskTitle (ascii ''1'') (ascii ''c1'') (ascii ''t9'') (ascii ''x'') initialSections
      = initialSections \<and>
    moveTask ?t9 (ascii ''1'') (ascii ''c1'') (ascii ''1'') (ascii ''c9'') initialSections
      = initialSections"
    by simp
  from h(3) unknown_id_noop [where b = initialSections and fs = "ascii ''1''"
      and fc = "ascii ''c1''" and ts = "ascii ''2''" and tc = "ascii ''c4''" and tk = ?t9]
  have "\<forall>i < length initialSections. \<forall>j < length (columns (initialSections ! i)).
      tasks (columns (moveTask ?t9 (ascii ''1'') (ascii ''c1'') (ascii ''2'') (ascii ''c4'')
                        initialSections ! i) ! j) =
        (if sec_id (initialSections ! i) = ascii ''2'' \<and>
            col_id (columns (initialSections ! i) ! j) = ascii ''c4''
         then tasks (columns (initialSections ! i) ! j) @ [?t9]
         else tasks (columns (initialSections ! i) ! j))"
    by simp
  with g have 4: "tasks (columns (moveTask ?t9 (ascii ''1'') (ascii ''c1'') (ascii ''2'') (ascii ''c4'')
                        initialSections ! 1) ! 0)
      = tasks (columns (initialSections ! 1) ! 0) @ [?t9]"
    by simp
  from h(2) unknown_id_noop [where b = initialSections and fs = "ascii ''1''"
      and fc = "ascii ''c1''" and ts = "ascii ''1''" and tc = "ascii ''c9''" and tk = ?t1]
  have 5: "moveTask ?t1 (ascii ''1'') (ascii ''c1'') (ascii ''1'') (ascii ''c9'') initialSections
     = deleteTask (ascii ''1'') (ascii ''c1'') (ascii ''t1'') initialSections"
    by simp
  from h g 1 2 3 4 5 show ?thesis by (intro conjI) blast+
qed

lemma no_section_no_column: "no_section sid b \<Longrightarrow> no_column sid cid b"
  by (auto simp: no_section_def no_column_iff)

lemma no_column_no_task: "no_column sid cid b \<Longrightarrow> no_task sid cid tid b"
  by (auto simp: no_task_iff no_column_iff)

subsection \<open>Titles\<close>

text \<open>An empty title adds no task.\<close>

lemma addTask_blank_scenario: "addTask now sid cid [] b = b"
  by (simp add: addTask_def trim_def truthy_def)

text \<open>
  Claim C10. When the trimmed title is not empty, the stored title is the input itself:
  the named section, column or task gets exactly the given string, and \<open>addTask\<close>
  appends a task, not completed, with exactly that string as its title.
\<close>

theorem title_stored_verbatim:
  "trim t \<noteq> [] \<Longrightarrow>
     (\<forall>i < length b. sec_id (b ! i) = sid \<longrightarrow> sec_title (editSectionTitle sid t b ! i) = t) \<and>
     (\<forall>i < length b. \<forall>j < length (columns (b ! i)).
        sec_id (b ! i) = sid \<and> col_id (columns (b ! i) ! j) = cid \<longrightarrow>
          col_title (columns (editColumnTitle sid cid t b ! i) ! j) = t \<and>
          tasks (columns (addTask now sid cid t b ! i) ! j) =
            tasks (columns (b ! i) ! j) @
              [\<lparr>task_id = ascii ''task-'' @ toString now, task_title = t, completed = False\<rparr>]) \<and>
     (\<forall>i < length b. \<forall>j < length (columns (b ! i)). \<forall>k < length (tasks (columns (b ! i) ! j)).
        sec_id (b ! i) = sid \<and> col_id (columns (b ! i) ! j) = cid \<and>
        task_id (tasks (columns (b ! i) ! j) ! k) = tid \<longrightarrow>
          task_title (tasks (columns (editTaskTitle sid cid tid t b ! i) ! j) ! k) = t)"
  by (simp add: editSectionTitle_def editColumnTitle_def addTask_def editTaskTitle_def truthy_def)

theorem title_stored_verbatim_witness:
  "trim (ascii '' Plan B '') \<noteq> [] \<and>
   0 < length initialSections \<and> 0 < length (columns (initialSections ! 0)) \<and>
   0 < length (tasks (columns (initialSections ! 0) ! 0)) \<and>
   sec_id (initialSections ! 0) = ascii ''1'' \<and>
   col_id (columns (initialSections ! 0) ! 0) = ascii ''c1'' \<and>
   task_id (tasks (columns (initialSections ! 0) ! 0) ! 0) = ascii ''t1'' \<and>
   sec_title (editSectionTitle (ascii ''1'') (ascii '' Plan B '') initialSections ! 0)
     = ascii '' Plan B '' \<and>
   col_title (columns (editColumnTitle (ascii ''1'') (ascii ''c1'') (ascii '' Plan B '')
                         initialSections ! 0) ! 0) = ascii '' Plan B '' \<and>
   tasks (columns (addTask 1730000000000 (ascii ''1'') (ascii ''c1'') (ascii '' Plan B '')
                     initialSections ! 0) ! 0) =
     tasks (columns (initialSections ! 0) ! 0) @
       [\<lparr>task_id = ascii ''task-'' @ toString 1730000000000, task_title = ascii '' Plan B '',
         completed = False\<rparr>] \<and>
   task_title (tasks (columns (editTaskTitle (ascii ''1'') (ascii ''c1'') (ascii ''t1'')
                                 (ascii '' Plan B '') initialSections ! 0) ! 0) ! 0)
     = ascii '' Plan B ''"
proof -
  have h: "trim (ascii '' Plan B '') \<noteq> []"
    by (simp add: trim_def ascii_def is_js_space_def)
  have g: "0 < length initialSections" "0 < length (columns (initialSections ! 0))"
    "0 < length (tasks (columns (initialSections ! 0) ! 0))"
    "sec_id (initialSections ! 0) = ascii ''1''"
    "col_id (columns (initialSections ! 0) ! 0) = ascii ''c1''"
    "task_id (tasks (columns (initialSections ! 0) ! 0) ! 0) = ascii ''t1''"
    by (simp_all add: initialSections_def)
  from g title_stored_verbatim [OF h, of initialSections "ascii ''1''" "ascii ''c1''"
      1730000000000 "ascii ''t1''"]
  have "sec_title (editSectionTitle (ascii ''1'') (ascii '' Plan B '') initialSections ! 0)
     = ascii '' Plan B '' \<and>
   col_title (columns (editColumnTitle (ascii ''1'') (ascii ''c1'') (ascii '' Plan B '')
                         initialSections ! 0) ! 0) = ascii '' Plan B '' \<and>
   tasks (columns (addTask 1730000000000 (ascii ''1'') (ascii ''c1'') (ascii '' Plan B '')
                     initialSections ! 0) ! 0) =
     tasks (columns (initialSections ! 0) ! 0) @
       [\<lparr>task_id = ascii ''task-'' @ toString 1730000000000, task_title = ascii '' Plan B '',
         completed = False\<rparr>] \<and>
   task_title (tasks (columns (editTaskTitle (ascii ''1'') (ascii ''c1'') (ascii ''t1'')
                                 (ascii '' Plan B '') initialSections ! 0) ! 0) ! 0)
     = ascii '' Plan B ''"
    by blast
  with h g show ?thesis by blast
qed

subsection \<open>Markdown\<close>

lemma markdownLine_spec: "markdownLine c t = markdown_line_spec c t"
  by (simp add: markdownLine_def markdown_line_spec_def ascii_def)

lemma inner_fold: "foldl (\<lambda>acc t. acc @ [f t]) acc ts = acc @ map f ts"
  by (induction ts arbitrary: acc) auto

lemma outer_fold:
  "foldl (\<lambda>acc c. acc @ g c) acc cs = acc @ concat (map g cs)"
  by (induction cs arbitrary: acc) auto

lemma markdownLines_spec: "markdownLines s = markdown_lines_spec s"
  by (simp add: markdownLines_def markdown_lines_spec_def inner_fold outer_fold markdownLine_spec)

lemma join_closed_form:
  "ls \<noteq> [] \<Longrightarrow> join sep ls = concat (map (\<lambda>l. l @ sep) (butlast ls)) @ last ls"
  by (induction sep ls rule: join.induct) auto

text \<open>
  Claim C9. The Markdown export is the text the specification describes: one line per task
  in stored order, each \<open>- [x] column: task\<close> or \<open>- [ ] column: task\<close>, joined by
  newlines with none after the last line; on the two-column example it is
  \<open>- [ ] To Do: A\<close>, a newline, \<open>- [x] Done: B\<close>.
\<close>

theorem markdown_export:
  "copySectionAsMarkdown s = markdown_spec s \<and>
   length (markdown_lines_spec s) = length (all_tasks [s]) \<and>
   copySectionAsMarkdown
     \<lparr>sec_id = sid, sec_title = st,
      columns = [\<lparr>col_id = c1, col_title = ascii ''To Do'',
                  tasks = [\<lparr>task_id = t1, task_title = ascii ''A'', completed = False\<rparr>]\<rparr>,
                 \<lparr>col_id = c2, col_title = ascii ''Done'',
                  tasks = [\<lparr>task_id = t2, task_title = ascii ''B'', completed = True\<rparr>]\<rparr>]\<rparr>
     = ascii ''- [ ] To Do: A'' @ [0x0A] @ ascii ''- [x] Done: B''"
proof (intro conjI)
  show "copySectionAsMarkdown s = markdown_spec s"
    by (cases "markdown_lines_spec s = []")
      (simp_all add: copySectionAsMarkdown_def markdown_spec_def markdownLines_spec
        join_closed_form Let_def)
  show "length (markdown_lines_spec s) = length (all_tasks [s])"
    by (simp add: markdown_lines_spec_def all_tasks_def all_columns_def length_concat comp_def)
  show "copySectionAsMarkdown
     \<lparr>sec_id = sid, sec_title = st,
      columns = [\<lparr>col_id = c1, col_title = ascii ''To Do'',
                  tasks = [\<lparr>task_id = t1, task_title = ascii ''A'', completed = False\<rparr>]\<rparr>,
                 \<lparr>col_id = c2, col_title = ascii ''Done'',
                  tasks = [\<lparr>task_id = t2, task_title = ascii ''B'', completed = True\<rparr>]\<rparr>]\<rparr>
     = ascii ''- [ ] To Do: A'' @ [0x0A] @ ascii ''- [x] Done: B''"
    by (simp add: copySectionAsMarkdown_def markdownLines_def markdownLine_def ascii_def)
qed

subsection \<open>Moving a task\<close>

lemma all_tasks_simps:
  "all_tasks [] = []"
  "all_tasks (s # b) = concat (map tasks (columns s)) @ all_tasks b"
  by (simp_all add: all_tasks_def all_columns_def)

lemma all_columns_simps:
  "all_columns [] = []"
  "all_columns (s # b) = columns s @ all_columns b"
  by (simp_all add: all_columns_def)

lemma matching_columns_simps:
  "matching_columns sid cid [] = []"
  "matching_columns sid cid (s # b) =
     (if sec_id s = sid then filter (\<lambda>c. col_id c = cid) (columns s) else []) @
     matching_columns sid cid b"
  by (simp_all add: matching_columns_def all_columns_def)

text \<open>The first pass, on the columns of one section.\<close>

lemma remove_pass_count:
  "length (concat (map tasks
      (map (\<lambda>col. if col_id col = fc
                  then col\<lparr>tasks := filter (\<lambda>x. task_id x \<noteq> tid) (tasks col)\<rparr> else col) cs)))
   + length (filter (\<lambda>x. task_id x = tid) (concat (map tasks (filter (\<lambda>c. col_id c = fc) cs))))
   = length (concat (map tasks cs))"
proof (induction cs)
  case Nil
  show ?case by simp
next
  case (Cons c cs)
  have "length (filter (\<lambda>x. task_id x \<noteq> tid) (tasks c)) + length (filter (\<lambda>x. task_id x = tid) (tasks c))
        = length (tasks c)"
    using sum_length_filter_compl [of "\<lambda>x. task_id x = tid" "tasks c"] by simp
  with Cons show ?case by simp
qed

lemma remove_pass_occurrences:
  "length (filter (\<lambda>x. task_id x = tid) (concat (map tasks
      (map (\<lambda>col. if col_id col = fc
                  then col\<lparr>tasks := filter (\<lambda>x. task_id x \<noteq> tid) (tasks col)\<rparr> else col) cs))))
   + length (filter (\<lambda>x. task_id x = tid) (concat (map tasks (filter (\<lambda>c. col_id c = fc) cs))))
   = length (filter (\<lambda>x. task_id x = tid) (concat (map tasks cs)))"
  by (induction cs) auto

lemma remove_pass_ids:
  "map col_id (map (\<lambda>col. if col_id col = fc
                  then col\<lparr>tasks := filter (\<lambda>x. task_id x \<noteq> tid) (tasks col)\<rparr> else col) cs)
   = map col_id cs"
  by (induction cs) auto

lemma length_filter_by_id:
  "map col_id cs = map col_id cs' \<Longrightarrow>
   length (filter (\<lambda>c. col_id c = cid) cs) = length (filter (\<lambda>c. col_id c = cid) cs')"
  by (induction cs arbitrary: cs') (auto simp: Cons_eq_map_conv)

text \<open>The first pass, on the board.\<close>

lemma updatedSections_count:
  "taskCount (updatedSections d b)
   + length (filter (\<lambda>x. task_id x = task_id (task d))
       (concat (map tasks (matching_columns (fromSection d) (fromColumn d) b))))
   = taskCount b"
proof (induction b)
  case Nil
  show ?case by (simp add: updatedSections_def taskCount_def all_tasks_simps matching_columns_simps)
next
  case (Cons s b)
  have tl: "updatedSections d (s # b) =
      (if sec_id s = fromSection d
       then s\<lparr>columns := map (\<lambda>col. if col_id col = fromColumn d
                  then col\<lparr>tasks := filter (\<lambda>x. task_id x \<noteq> task_id (task d)) (tasks col)\<rparr> else col)
                  (columns s)\<rparr>
       else s) # updatedSections d b"
    by (simp add: updatedSections_def)
  show ?case
  proof (cases "sec_id s = fromSection d")
    case True
    with Cons remove_pass_count [of "fromColumn d" "task_id (task d)" "columns s"]
    show ?thesis
      by (simp add: tl taskCount_def all_tasks_simps matching_columns_simps)
  next
    case False
    with Cons show ?thesis
      by (simp add: tl taskCount_def all_tasks_simps matching_columns_simps)
  qed
qed

lemma updatedSections_occurrences:
  "occurrences (task_id (task d)) (updatedSections d b)
   + length (filter (\<lambda>x. task_id x = task_id (task d))
       (concat (map tasks (matching_columns (fromSection d) (fromColumn d) b))))
   = occurrences (task_id (task d)) b"
proof (induction b)
  case Nil
  show ?case by (simp add: updatedSections_def occurrences_def all_tasks_simps matching_columns_simps)
next
  case (Cons s b)
  have tl: "updatedSections d (s # b) =
      (if sec_id s = fromSection d
       then s\<lparr>columns := map (\<lambda>col. if col_id col = fromColumn d
                  then col\<lparr>tasks := filter (\<lambda>x. task_id x \<noteq> task_id (task d)) (tasks col)\<rparr> else col)
                  (columns s)\<rparr>
       else s) # updatedSections d b"
    by (simp add: updatedSections_def)
  show ?case
  proof (cases "sec_id s = fromSection d")
    case True
    with Cons remove_pass_occurrences [of "task_id (task d)" "fromColumn d" "columns s"]
    show ?thesis
      by (simp add: tl occurrences_def all_tasks_simps matching_columns_simps)
  next
    case False
    with Cons show ?thesis
      by (simp add: tl occurrences_def all_tasks_simps matching_columns_simps)
  qed
qed

lemma updatedSections_matching:
  "length (matching_columns sid cid (updatedSections d b)) = length (matching_columns sid cid b)"
proof (induction b)
  case Nil
  show ?case by (simp add: updatedSections_def)
next
  case (Cons s b)
  have tl: "updatedSections d (s # b) =
      (if sec_id s = fromSection d
       then s\<lparr>columns := map (\<lambda>col. if col_id col = fromColumn d
                  then col\<lparr>tasks := filter (\<lambda>x. task_id x \<noteq> task_id (task d)) (tasks col)\<rparr> else col)
                  (columns s)\<rparr>
       else s) # updatedSections d b"
    by (simp add: updatedSections_def)
  from Cons show ?case
    by (simp add: tl matching_columns_simps
        length_filter_by_id [OF remove_pass_ids [of "fromColumn d" "task_id (task d)" "columns s"]]
        del: map_map filter_map length_filter_map)
qed

text \<open>The second pass.\<close>

lemma add_pass_count:
  "length (concat (map tasks
      (map (\<lambda>col. if col_id col = tc then col\<lparr>tasks := tasks col @ [t]\<rparr> else col) cs)))
   = length (concat (map tasks cs)) + length (filter (\<lambda>c. col_id c = tc) cs)"
  by (induction cs) auto

lemma add_pass_holding:
  "\<forall>x \<in> set (concat (map tasks cs)). task_id x \<noteq> task_id t \<Longrightarrow>
   filter (\<lambda>col. \<exists>x \<in> set (tasks col). task_id x = task_id t)
      (map (\<lambda>col. if col_id col = tc then col\<lparr>tasks := tasks col @ [t]\<rparr> else col) cs)
   = map (\<lambda>col. col\<lparr>tasks := tasks col @ [t]\<rparr>) (filter (\<lambda>c. col_id c = tc) cs)"
  by (induction cs) auto

lemma not_holding:
  "\<forall>x \<in> set (concat (map tasks cs)). task_id x \<noteq> tid \<Longrightarrow>
   filter (\<lambda>col. \<exists>x \<in> set (tasks col). task_id x = tid) cs = []"
  by (induction cs) auto

lemma finalSections_count:
  "taskCount (finalSections d ts tc b) = taskCount b + length (matching_columns ts tc b)"
proof (induction b)
  case Nil
  show ?case by (simp add: finalSections_def taskCount_def all_tasks_simps matching_columns_simps)
next
  case (Cons s b)
  have tl: "finalSections d ts tc (s # b) =
      (if sec_id s = ts
       then s\<lparr>columns := map (\<lambda>col. if col_id col = tc
                  then col\<lparr>tasks := tasks col @ [task d]\<rparr> else col) (columns s)\<rparr>
       else s) # finalSections d ts tc b"
    by (simp add: finalSections_def)
  from Cons show ?case
    by (simp add: tl taskCount_def all_tasks_simps matching_columns_simps add_pass_count
        del: map_map)
qed

lemma finalSections_holding:
  "\<forall>x \<in> set (all_tasks b). task_id x \<noteq> task_id (task d) \<Longrightarrow>
   length (columns_holding (task_id (task d)) (finalSections d ts tc b))
     = length (matching_columns ts tc b)"
proof (induction b)
  case Nil
  show ?case
    by (simp add: finalSections_def columns_holding_def all_columns_simps matching_columns_simps)
next
  case (Cons s b)
  have tl: "finalSections d ts tc (s # b) =
      (if sec_id s = ts
       then s\<lparr>columns := map (\<lambda>col. if col_id col = tc
                  then col\<lparr>tasks := tasks col @ [task d]\<rparr> else col) (columns s)\<rparr>
       else s) # finalSections d ts tc b"
    by (simp add: finalSections_def)
  from Cons.prems have here: "\<forall>x \<in> set (concat (map tasks (columns s))). task_id x \<noteq> task_id (task d)"
    and rest: "\<forall>x \<in> set (all_tasks b). task_id x \<noteq> task_id (task d)"
    by (simp_all add: all_tasks_simps ball_Un)
  from Cons.IH [OF rest] have ih: "length (filter (\<lambda>col. \<exists>x \<in> set (tasks col). task_id x = task_id (task d))
        (all_columns (finalSections d ts tc b))) = length (matching_columns ts tc b)"
    by (simp add: columns_holding_def)
  show ?case
  proof (cases "sec_id s = ts")
    case True
    with ih add_pass_holding [OF here, of tc] show ?thesis
      by (simp add: tl columns_holding_def all_columns_simps matching_columns_simps)
  next
    case False
    with ih not_holding [OF here] show ?thesis
      by (simp add: tl columns_holding_def all_columns_simps matching_columns_simps)
  qed
qed

lemma add_pass_occurrences:
  "length (filter (\<lambda>x. task_id x = task_id t) (concat (map tasks
      (map (\<lambda>col. if col_id col = tc then col\<lparr>tasks := tasks col @ [t]\<rparr> else col) cs))))
   = length (filter (\<lambda>x. task_id x = task_id t) (concat (map tasks cs)))
     + length (filter (\<lambda>c. col_id c = tc) cs)"
  by (induction cs) auto

lemma finalSections_occurrences:
  "occurrences (task_id (task d)) (finalSections d ts tc b)
   = occurrences (task_id (task d)) b + length (matching_columns ts tc b)"
proof (induction b)
  case Nil
  show ?case by (simp add: finalSections_def occurrences_def all_tasks_simps matching_columns_simps)
next
  case (Cons s b)
  have tl: "finalSections d ts tc (s # b) =
      (if sec_id s = ts
       then s\<lparr>columns := map (\<lambda>col. if col_id col = tc
                  then col\<lparr>tasks := tasks col @ [task d]\<rparr> else col) (columns s)\<rparr>
       else s) # finalSections d ts tc b"
    by (simp add: finalSections_def)
  from Cons show ?case
    by (simp add: tl occurrences_def all_tasks_simps matching_columns_simps add_pass_occurrences
        del: map_map)
qed

lemma occurrences_zero:
  "occurrences tid b = 0 \<Longrightarrow> \<forall>x \<in> set (all_tasks b). task_id x \<noteq> tid"
  by (auto simp: occurrences_def filter_empty_conv)

lemma present_at_source:
  "\<not> no_task sid cid tid b \<Longrightarrow>
   0 < length (filter (\<lambda>x. task_id x = tid) (concat (map tasks (matching_columns sid cid b))))"
  by (auto simp: no_task_def filter_empty_conv)

text \<open>The scenario of the specification: a move from To Do to Done.\<close>

lemma moveTask_scenario:
  "moveTask \<lparr>task_id = t, task_title = ascii ''Write spec'', completed = False\<rparr> s c1 s c2
     [\<lparr>sec_id = s, sec_title = st,
       columns = [\<lparr>col_id = c1, col_title = ascii ''To Do'',
                   tasks = [\<lparr>task_id = t, task_title = ascii ''Write spec'', completed = False\<rparr>]\<rparr>,
                  \<lparr>col_id = c2, col_title = ascii ''Done'', tasks = []\<rparr>]\<rparr>]
   = (if c1 = c2
      then [\<lparr>sec_id = s, sec_title = st,
             columns = [\<lparr>col_id = c1, col_title = ascii ''To Do'',
                         tasks = [\<lparr>task_id = t, task_title = ascii ''Write spec'', completed = False\<rparr>]\<rparr>,
                        \<lparr>col_id = c2, col_title = ascii ''Done'',
                         tasks = [\<lparr>task_id = t, task_title = ascii ''Write spec'', completed = False\<rparr>]\<rparr>]\<rparr>]
      else [\<lparr>sec_id = s, sec_title = st,
             columns = [\<lparr>col_id = c1, col_title = ascii ''To Do'', tasks = []\<rparr>,
                        \<lparr>col_id = c2, col_title = ascii ''Done'',
                         tasks = [\<lparr>task_id = t, task_title = ascii ''Write spec'', completed = False\<rparr>]\<rparr>]\<rparr>])"
  by (simp add: moveTask_def handleDrop_def handleDragStart_def updatedSections_def
      finalSections_def)

text \<open>
  A drop of a stale reference changes the count: task t1 is picked up, the drag ends outside
  any column, t1 is deleted, and a later drop onto column c2 appends the remembered t1 again.
  The board had two tasks before the drop and has three after it.
\<close>

theorem moveTask_conserves_counterexample:
  "taskCount (deleteTask (ascii ''1'') (ascii ''c1'') (ascii ''t1'') initialSections) = 2 \<and>
   taskCount
     (moveTask \<lparr>task_id = ascii ''t1'', task_title = ascii ''Sample task 1'', completed = False\<rparr>
        (ascii ''1'') (ascii ''c1'') (ascii ''1'') (ascii ''c2'')
        (deleteTask (ascii ''1'') (ascii ''c1'') (ascii ''t1'') initialSections)) = 3"
  by (simp add: taskCount_def all_tasks_def all_columns_def deleteTask_def initialSections_def
      moveTask_def handleDrop_def handleDragStart_def updatedSections_def finalSections_def
      ascii_def)

text \<open>
  The other two conditions of the amended claim are needed as well: a target that addresses
  no column loses the task, and a target id shared by two columns (as two columns created
  at the same clock value have) copies it into both.
\<close>

lemma moveTask_unknown_target_loses_task:
  "taskCount initialSections = 3 \<and>
   taskCount
     (moveTask \<lparr>task_id = ascii ''t1'', task_title = ascii ''Sample task 1'', completed = False\<rparr>
        (ascii ''1'') (ascii ''c1'') (ascii ''1'') (ascii ''c9'') initialSections) = 2"
  by (simp add: taskCount_def all_tasks_def all_columns_def initialSections_def
      moveTask_def handleDrop_def handleDragStart_def updatedSections_def finalSections_def
      ascii_def)

lemma moveTask_duplicate_target_copies_task:
  "taskCount
     (moveTask \<lparr>task_id = ascii ''t1'', task_title = ascii ''Sample task 1'', completed = False\<rparr>
        (ascii ''1'') (ascii ''c1'') (ascii ''2'') (ascii ''col-5'')
        (creations [AddColumn 5 (ascii ''2''), AddColumn 5 (ascii ''2'')] initialSections)) = 4"
  by (simp add: taskCount_def all_tasks_def all_columns_def initialSections_def addColumn_def
      moveTask_def handleDrop_def handleDragStart_def updatedSections_def finalSections_def
      ascii_def toString.simps digit_def)

text \<open>
  Claim C1, as amended. When the id of the dragged task occurs exactly once on the board,
  in a column addressed by the source ids, and the target ids address exactly one column,
  the move keeps the total number of tasks, and afterwards the id occurs exactly once, in
  exactly one column.
\<close>

theorem moveTask_conserves:
  assumes once: "occurrences (task_id t) b = 1"
    and src: "\<not> no_task fs fc (task_id t) b"
    and dst: "length (matching_columns ts tc b) = 1"
  shows "taskCount (moveTask t fs fc ts tc b) = taskCount b \<and>
         length (columns_holding (task_id t) (moveTask t fs fc ts tc b)) = 1 \<and>
         occurrences (task_id t) (moveTask t fs fc ts tc b) = 1"
proof -
  define d where "d = \<lparr>task = t, fromSection = fs, fromColumn = fc\<rparr>"
  define k where "k = length (filter (\<lambda>x. task_id x = task_id t)
                         (concat (map tasks (matching_columns fs fc b))))"
  have mv: "moveTask t fs fc ts tc b = finalSections d ts tc (updatedSections d b)"
    by (simp add: d_def moveTask_def handleDrop_def handleDragStart_def)
  have dsel: "task d = t" "fromSection d = fs" "fromColumn d = fc"
    by (simp_all add: d_def)
  have kpos: "0 < k" using present_at_source [OF src] by (simp add: k_def)
  have "occurrences (task_id t) (updatedSections d b) + k = occurrences (task_id t) b"
    using updatedSections_occurrences [of d b] by (simp add: dsel k_def)
  with once kpos have k1: "k = 1" and gone: "occurrences (task_id t) (updatedSections d b) = 0"
    by simp_all
  have cnt: "taskCount (updatedSections d b) + 1 = taskCount b"
    using updatedSections_count [of d b] k1 by (simp add: dsel k_def)
  have m: "length (matching_columns ts tc (updatedSections d b)) = 1"
    using dst by (simp add: updatedSections_matching)
  have c1: "taskCount (moveTask t fs fc ts tc b) = taskCount b"
    using cnt m by (simp add: mv finalSections_count)
  have c2: "length (columns_holding (task_id t) (moveTask t fs fc ts tc b)) = 1"
    using finalSections_holding [of "updatedSections d b" d ts tc] occurrences_zero [OF gone] m
    by (simp add: mv dsel)
  have c3: "occurrences (task_id t) (moveTask t fs fc ts tc b) = 1"
    using finalSections_occurrences [of d ts tc "updatedSections d b"] gone m
    by (simp add: mv dsel)
  show ?thesis using c1 c2 c3 by simp
qed

theorem moveTask_conserves_witness:
  "occurrences (ascii ''t1'') initialSections = 1 \<and>
   \<not> no_task (ascii ''1'') (ascii ''c1'') (ascii ''t1'') initialSections \<and>
   length (matching_columns (ascii ''2'') (ascii ''c4'') initialSections) = 1 \<and>
   taskCount
     (moveTask \<lparr>task_id = ascii ''t1'', task_title = ascii ''Sample task 1'', completed = False\<rparr>
        (ascii ''1'') (ascii ''c1'') (ascii ''2'') (ascii ''c4'') initialSections)
     = taskCount initialSections \<and>
   length (columns_holding (ascii ''t1'')
     (moveTask \<lparr>task_id = ascii ''t1'', task_title = ascii ''Sample task 1'', completed = False\<rparr>
        (ascii ''1'') (ascii ''c1'') (ascii ''2'') (ascii ''c4'') initialSections)) = 1 \<and>
   occurrences (ascii ''t1'')
     (moveTask \<lparr>task_id = ascii ''t1'', task_title = ascii ''Sample task 1'', completed = False\<rparr>
        (ascii ''1'') (ascii ''c1'') (ascii ''2'') (ascii ''c4'') initialSections) = 1"
proof -
  let ?t = "\<lparr>task_id = ascii ''t1'', task_title = ascii ''Sample task 1'', completed = False\<rparr>"
  have h: "occurrences (task_id ?t) initialSections = 1"
    "\<not> no_task (ascii ''1'') (ascii ''c1'') (task_id ?t) initialSections"
    "length (matching_columns (ascii ''2'') (ascii ''c4'') initialSections) = 1"
    by (simp_all add: occurrences_def no_task_def matching_columns_def all_tasks_def
        all_columns_def initialSections_def ascii_def)
  from h moveTask_conserves [OF h] show ?thesis by simp
qed

subsection \<open>Generated ids\<close>

lemma unat_digit: "d < 10 \<Longrightarrow> unat (digit d) = 48 + d"
  unfolding digit_def unat_of_nat by simp

lemma digit_inj: "a < 10 \<Longrightarrow> b < 10 \<Longrightarrow> digit a = digit b \<Longrightarrow> a = b"
proof -
  assume a: "a < 10" and b: "b < 10" and e: "digit a = digit b"
  from e have "unat (digit a) = unat (digit b)" by simp
  with a b show "a = b" by (simp add: unat_digit)
qed

lemma toString_not_empty: "toString n \<noteq> []"
  by (subst toString.simps) simp

lemma toString_inj: "toString n = toString m \<Longrightarrow> n = m"
proof (induction n arbitrary: m rule: toString.induct)
  case (1 n)
  show ?case
  proof (cases "n < 10")
    case small: True
    show ?thesis
    proof (cases "m < 10")
      case True
      with small "1.prems" show ?thesis
        by (simp add: toString.simps [of n] toString.simps [of m] digit_inj)
    next
      case False
      with small "1.prems" toString_not_empty [of "m div 10"] show ?thesis
        by (simp add: toString.simps [of n] toString.simps [of m])
    qed
  next
    case big: False
    show ?thesis
    proof (cases "m < 10")
      case True
      with big "1.prems" toString_not_empty [of "n div 10"] show ?thesis
        by (simp add: toString.simps [of n] toString.simps [of m])
    next
      case False
      with big "1.prems" have e: "toString (n div 10) = toString (m div 10)"
        and d: "digit (n mod 10) = digit (m mod 10)"
        by (simp_all add: toString.simps [of n] toString.simps [of m])
      from "1.IH" [OF big e] have q: "n div 10 = m div 10" .
      from d have r: "n mod 10 = m mod 10" by (simp add: digit_inj)
      from q r show ?thesis by (metis div_mult_mod_eq)
    qed
  qed
qed

text \<open>Distinctness by counting.\<close>

lemma distinct_count: "distinct xs \<longleftrightarrow> (\<forall>x. count_list xs x \<le> 1)"
proof (induction xs)
  case Nil
  show ?case by simp
next
  case (Cons a xs)
  show ?case
  proof
    assume d: "distinct (a # xs)"
    then have "count_list xs a = 0" by (simp add: count_list_0_iff)
    with d Cons show "\<forall>x. count_list (a # xs) x \<le> 1" by auto
  next
    assume c: "\<forall>x. count_list (a # xs) x \<le> 1"
    then have "count_list (a # xs) a \<le> 1" by blast
    then have a: "count_list xs a = 0" by simp
    have "count_list xs x \<le> 1" for x
      using c [rule_format, of x] by (simp split: if_splits)
    with a Cons show "distinct (a # xs)" by (simp add: count_list_0_iff)
  qed
qed

lemma count_extend:
  "(\<forall>x. c x + (if x = v then k else 0) \<le> (1::nat)) \<longleftrightarrow>
     (\<forall>x. c x \<le> 1) \<and> (k = 0 \<or> (k = 1 \<and> c v = 0))"
proof
  assume a: "\<forall>x. c x + (if x = v then k else 0) \<le> 1"
  have "c x \<le> 1" for x using a [rule_format, of x] by (simp split: if_splits)
  moreover have "k = 0 \<or> (k = 1 \<and> c v = 0)" using a [rule_format, of v] by auto
  ultimately show "(\<forall>x. c x \<le> 1) \<and> (k = 0 \<or> (k = 1 \<and> c v = 0))" by blast
next
  assume "(\<forall>x. c x \<le> 1) \<and> (k = 0 \<or> (k = 1 \<and> c v = 0))"
  then show "\<forall>x. c x + (if x = v then k else 0) \<le> 1" by auto
qed

lemma distinct_extend:
  assumes "\<And>x. count_list ys x = count_list xs x + (if x = v then k else 0)"
  shows "distinct ys \<longleftrightarrow> distinct xs \<and> (k = 0 \<or> (k = 1 \<and> v \<notin> set xs))"
  using count_extend [of "count_list xs" v k]
  by (simp add: distinct_count assms count_list_0_iff)

text \<open>How many sections and columns an operation addresses.\<close>

lemma count_sections:
  "length (filter (\<lambda>s. sec_id s = sid) b) = count_list (map sec_id b) sid"
  by (induction b) auto

lemma sections_addressed:
  assumes "distinct (map sec_id b)"
  shows "length (filter (\<lambda>s. sec_id s = sid) b) = (if no_section sid b then 0 else 1)"
proof -
  have le: "count_list (map sec_id b) sid \<le> 1"
    using assms by (simp add: distinct_count)
  have z: "count_list (map sec_id b) sid = 0 \<longleftrightarrow> no_section sid b"
    by (auto simp: count_list_0_iff no_section_def)
  from le z show ?thesis by (auto simp: count_sections)
qed

lemma matching_le:
  "length (matching_columns sid cid b) \<le> count_list (map col_id (all_columns b)) cid"
proof (induction b)
  case Nil
  show ?case by (simp add: matching_columns_simps all_columns_simps)
next
  case (Cons s b)
  have "length (filter (\<lambda>c. col_id c = cid) cs) = count_list (map col_id cs) cid"
    for cs :: "Column list"
    by (induction cs) auto
  with Cons show ?case
    by (simp add: matching_columns_simps all_columns_simps)
qed

lemma columns_addressed:
  assumes "distinct (map col_id (all_columns b))"
  shows "length (matching_columns sid cid b) = (if no_column sid cid b then 0 else 1)"
proof -
  have "count_list (map col_id (all_columns b)) cid \<le> 1"
    using assms by (simp add: distinct_count)
  with matching_le [of sid cid b] have "length (matching_columns sid cid b) \<le> 1" by simp
  then show ?thesis by (cases "matching_columns sid cid b") (auto simp: no_column_def)
qed

text \<open>\<open>addSection\<close>.\<close>

lemma addSection_unique_iff:
  "unique_ids (addSection now1 now2 b) \<longleftrightarrow>
     unique_ids b \<and> fresh_creation (AddSection now1 now2) b"
  by (auto simp: unique_ids_def addSection_def all_columns_def all_tasks_def)

text \<open>\<open>addColumn\<close>.\<close>

lemma addColumn_sec_ids: "map sec_id (addColumn now sid b) = map sec_id b"
  by (induction b) (simp_all add: addColumn_def Let_def)

lemma addColumn_tasks: "all_tasks (addColumn now sid b) = all_tasks b"
  by (induction b) (simp_all add: addColumn_def Let_def all_tasks_simps)

lemma addColumn_col_count:
  "count_list (map col_id (all_columns (addColumn now sid b))) x =
     count_list (map col_id (all_columns b)) x +
     (if x = ascii ''col-'' @ toString now then length (filter (\<lambda>s. sec_id s = sid) b) else 0)"
  by (induction b) (simp_all add: addColumn_def Let_def all_columns_simps)

lemma addColumn_unique_iff:
  "unique_ids (addColumn now sid b) \<longleftrightarrow> unique_ids b \<and> fresh_creation (AddColumn now sid) b"
proof (cases "distinct (map sec_id b)")
  case False
  then show ?thesis by (simp add: unique_ids_def addColumn_sec_ids)
next
  case True
  have "distinct (map col_id (all_columns (addColumn now sid b))) \<longleftrightarrow>
      distinct (map col_id (all_columns b)) \<and>
      (no_section sid b \<or> ascii ''col-'' @ toString now \<notin> set (map col_id (all_columns b)))"
    using distinct_extend [OF addColumn_col_count, of now sid b]
    by (simp add: sections_addressed [OF True])
  with True show ?thesis
    by (auto simp: unique_ids_def addColumn_sec_ids addColumn_tasks)
qed

text \<open>\<open>addTask\<close>.\<close>

lemma addTask_sec_ids: "map sec_id (addTask now sid cid t b) = map sec_id b"
  by (induction b) (simp_all add: addTask_def Let_def)

lemma append_pass_col_ids:
  "map col_id (map (\<lambda>col. if col_id col = cid then col\<lparr>tasks := tasks col @ [nt]\<rparr> else col) cs)
     = map col_id cs"
  by (induction cs) auto

lemma addTask_col_ids: "map col_id (all_columns (addTask now sid cid t b)) = map col_id (all_columns b)"
proof -
  have "map col_id (all_columns (map (\<lambda>section. if sec_id section = sid
            then section\<lparr>columns := map (\<lambda>col. if col_id col = cid
                    then col\<lparr>tasks := tasks col @ [nt]\<rparr> else col) (columns section)\<rparr>
            else section) b)) = map col_id (all_columns b)" for nt
    by (induction b) (simp_all add: all_columns_simps append_pass_col_ids del: map_map)
  then show ?thesis by (simp add: addTask_def Let_def)
qed

lemma append_pass_task_count:
  "count_list (map task_id (concat (map tasks
      (map (\<lambda>col. if col_id col = cid then col\<lparr>tasks := tasks col @ [nt]\<rparr> else col) cs)))) x =
   count_list (map task_id (concat (map tasks cs))) x +
   (if x = task_id nt then length (filter (\<lambda>c. col_id c = cid) cs) else 0)"
  by (induction cs) auto

lemma addTask_task_count:
  assumes "truthy (trim t)"
  shows "count_list (map task_id (all_tasks (addTask now sid cid t b))) x =
     count_list (map task_id (all_tasks b)) x +
     (if x = ascii ''task-'' @ toString now then length (matching_columns sid cid b) else 0)"
proof -
  let ?nt = "\<lparr>task_id = ascii ''task-'' @ toString now, task_title = t, completed = False\<rparr>"
  have "count_list (map task_id (all_tasks (map (\<lambda>section. if sec_id section = sid
            then section\<lparr>columns := map (\<lambda>col. if col_id col = cid
                    then col\<lparr>tasks := tasks col @ [?nt]\<rparr> else col) (columns section)\<rparr>
            else section) b))) x =
     count_list (map task_id (all_tasks b)) x +
     (if x = ascii ''task-'' @ toString now then length (matching_columns sid cid b) else 0)"
  proof (induction b)
    case Nil
    show ?case by (simp add: all_tasks_simps matching_columns_simps)
  next
    case (Cons s b)
    from Cons show ?case
      by (simp add: all_tasks_simps matching_columns_simps append_pass_task_count del: map_map)
  qed
  with assms show ?thesis by (simp add: addTask_def Let_def)
qed

lemma addTask_unique_iff:
  "unique_ids (addTask now sid cid t b) \<longleftrightarrow> unique_ids b \<and> fresh_creation (AddTask now sid cid t) b"
proof (cases "truthy (trim t)")
  case False
  then show ?thesis by (simp add: addTask_def)
next
  case t: True
  show ?thesis
  proof (cases "distinct (map col_id (all_columns b))")
    case False
    then show ?thesis by (simp add: unique_ids_def addTask_col_ids)
  next
    case True
    have "distinct (map task_id (all_tasks (addTask now sid cid t b))) \<longleftrightarrow>
        distinct (map task_id (all_tasks b)) \<and>
        (no_column sid cid b \<or> ascii ''task-'' @ toString now \<notin> set (map task_id (all_tasks b)))"
      using distinct_extend [OF addTask_task_count [OF t], of now sid cid b]
      by (simp add: columns_addressed [OF True])
    with True t show ?thesis
      by (auto simp: unique_ids_def addTask_sec_ids addTask_col_ids)
  qed
qed

text \<open>Any creation, and any run.\<close>

lemma create_unique_iff: "unique_ids (create c b) \<longleftrightarrow> unique_ids b \<and> fresh_creation c b"
  by (cases c) (simp_all only: create.simps addSection_unique_iff addColumn_unique_iff
      addTask_unique_iff)

lemma creations_unique_iff:
  "unique_ids (creations cs b) \<longleftrightarrow> unique_ids b \<and> fresh_run cs b"
  by (induction cs arbitrary: b) (auto simp: create_unique_iff)

text \<open>Two creations of one kind generate the same id exactly when they read the same clock value.\<close>

lemma generated_id_eq:
  "toString m = toString n \<longleftrightarrow> m = n"
  "ascii ''col-'' @ toString m = ascii ''col-'' @ toString n \<longleftrightarrow> m = n"
  "ascii ''task-'' @ toString m = ascii ''task-'' @ toString n \<longleftrightarrow> m = n"
  using toString_inj by auto

text \<open>
  Two creations that read the same clock value generate the same id: two sections added at
  the same millisecond share their section id and their column id.
\<close>

theorem creations_keep_ids_unique_counterexample:
  "unique_ids initialSections \<and>
   \<not> unique_ids (creations [AddSection 1730000000000 1730000000000,
                             AddSection 1730000000000 1730000000000] initialSections)"
  by (simp add: unique_ids_def all_tasks_def all_columns_def initialSections_def addSection_def
      ascii_def)

text \<open>
  The clock may also tick between the two reads of \<open>addSection\<close>: the section gets id 41
  and its column id col-42, and a column added at clock value 42 gets col-42 again.
\<close>

lemma clock_tick_inside_addSection:
  "unique_ids initialSections \<and>
   \<not> unique_ids (creations [AddSection 41 42, AddColumn 42 (ascii ''1'')] initialSections)"
  by (simp add: unique_ids_def all_tasks_def all_columns_def initialSections_def addSection_def
      addColumn_def ascii_def toString.simps digit_def)

text \<open>
  An id can also be on the board from the start: the first-run board has a section with
  id 1.
\<close>

lemma creation_of_present_id:
  "unique_ids initialSections \<and> \<not> unique_ids (creations [AddSection 1 1] initialSections)"
  by (simp add: unique_ids_def all_tasks_def all_columns_def initialSections_def addSection_def
      ascii_def toString.simps digit_def)

text \<open>
  Claim C4, as amended. Starting from a board with unique ids, the ids are unique within
  their kind after a run of creations exactly when every id a creation inserts is not yet on
  the board, within its kind, at the moment it is inserted.
\<close>

theorem creations_keep_ids_unique:
  "unique_ids b \<Longrightarrow> unique_ids (creations cs b) \<longleftrightarrow> fresh_run cs b"
  by (simp add: creations_unique_iff)

theorem creations_keep_ids_unique_witness:
  "unique_ids initialSections \<and>
   fresh_run [AddSection 1730000000000 1730000000001,
              AddColumn 1730000000002 (ascii ''1''),
              AddTask 1730000000002 (ascii ''1'') (ascii ''c1'') (ascii ''Write spec''),
              AddColumn 1730000000002 (ascii ''9''),
              AddTask 1730000000002 (ascii ''1'') (ascii ''c1'') (ascii ''  '')] initialSections \<and>
   unique_ids (creations [AddSection 1730000000000 1730000000001,
              AddColumn 1730000000002 (ascii ''1''),
              AddTask 1730000000002 (ascii ''1'') (ascii ''c1'') (ascii ''Write spec''),
              AddColumn 1730000000002 (ascii ''9''),
              AddTask 1730000000002 (ascii ''1'') (ascii ''c1'') (ascii ''  '')] initialSections)"
proof -
  let ?cs = "[AddSection 1730000000000 1730000000001,
              AddColumn 1730000000002 (ascii ''1''),
              AddTask 1730000000002 (ascii ''1'') (ascii ''c1'') (ascii ''Write spec''),
              AddColumn 1730000000002 (ascii ''9''),
              AddTask 1730000000002 (ascii ''1'') (ascii ''c1'') (ascii ''  '')]"
  have u: "unique_ids initialSections"
    by (simp add: unique_ids_def all_tasks_def all_columns_def initialSections_def ascii_def)
  have f: "fresh_run ?cs initialSections"
    by (simp add: all_tasks_def all_columns_def initialSections_def ascii_def
        toString.simps digit_def addSection_def addColumn_def addTask_def no_section_def
        no_column_def matching_columns_def trim_def truthy_def is_js_space_def)
  from u f creations_keep_ids_unique [OF u, of ?cs] show ?thesis by blast
qed

subsection \<open>Export and import of JSON text\<close>

subsection \<open>Escapes\<close>

lemma unat_hex_digit: "d < 16 \<Longrightarrow> unat (hex_digit d) = (if d < 10 then 48 + d else 87 + d)"
  by (cases "d < 10") (simp_all add: hex_digit_def unat_of_nat del: of_nat_add)

lemma hex_value_digit: "d < 16 \<Longrightarrow> hex_value (hex_digit d) = Some d"
  by (simp add: hex_value_def word_le_nat_alt unat_hex_digit)

lemma hex_split:
  "(n::nat) div 4096 * 4096 + n div 256 mod 16 * 256 + n div 16 mod 16 * 16 + n mod 16 = n"
proof -
  define a where "a = n div 16"
  define b where "b = n div 256"
  define c where "c = n div 4096"
  have ba: "b = a div 16" by (simp add: a_def b_def div_mult2_eq)
  have cb: "c = b div 16" by (simp add: b_def c_def div_mult2_eq)
  have 1: "n = a * 16 + n mod 16" by (simp add: a_def)
  have 2: "a = b * 16 + a mod 16" by (simp add: ba)
  have 3: "b = c * 16 + b mod 16" by (simp add: cb)
  have "c * 4096 + b mod 16 * 256 + a mod 16 * 16 + n mod 16 = n"
    using 1 2 3 by linarith
  then show ?thesis by (simp add: a_def b_def c_def)
qed

lemma hex4_escape:
  "hex4 (hex_digit (unat c div 4096)) (hex_digit (unat c div 256 mod 16))
        (hex_digit (unat c div 16 mod 16)) (hex_digit (unat c mod 16)) = Some (c :: jschar)"
proof -
  have "unat c < 65536" using unsigned_less [of c] by simp
  then have "unat c div 4096 < 16" by simp
  then show ?thesis
    by (simp add: hex4_def hex_value_digit hex_split)
qed


lemma parse_escaped:
  "parse_chars (unicode_escape c @ t) = cons_unit c (parse_chars t)"
  by (simp add: unicode_escape_def Let_def hex4_escape)

lemma parse_quote_unit:
  "parse_chars (quote_unit c @ t) = cons_unit c (parse_chars t)"
proof -
  consider "c = 0x08" | "c = 0x09" | "c = 0x0A" | "c = 0x0C" | "c = 0x0D" | "c = 0x22" | "c = 0x5C"
    | "c \<notin> {0x08, 0x09, 0x0A, 0x0C, 0x0D, 0x22, 0x5C}"
      "c < 0x20 \<or> is_leading_surrogate c \<or> is_trailing_surrogate c"
    | "c \<notin> {0x08, 0x09, 0x0A, 0x0C, 0x0D, 0x22, 0x5C}"
      "\<not> (c < 0x20 \<or> is_leading_surrogate c \<or> is_trailing_surrogate c)"
    by blast
  then show ?thesis
  proof cases
    case 8
    then show ?thesis by (simp add: quote_unit_def parse_escaped)
  next
    case 9
    then show ?thesis by (simp add: quote_unit_def)
  qed (simp_all add: quote_unit_def simple_escape_def)
qed

lemma surrogate_plain:
  "is_leading_surrogate c \<or> is_trailing_surrogate c \<Longrightarrow> c \<noteq> 0x22 \<and> c \<noteq> 0x5C \<and> \<not> c < 0x20"
  by (auto simp: is_leading_surrogate_def is_trailing_surrogate_def word_le_nat_alt
      word_less_nat_alt)

lemma parse_pair:
  "is_leading_surrogate c \<Longrightarrow> is_trailing_surrogate d \<Longrightarrow>
   parse_chars (c # d # t) = cons_unit c (cons_unit d (parse_chars t))"
  using surrogate_plain [of c] surrogate_plain [of d] by simp

lemma parse_quote_units: "parse_chars (quote_units s @ 0x22 # rest) = Some (s, rest)"
proof (induction s rule: quote_units.induct)
  case 1
  show ?case by simp
next
  case (2 c)
  show ?case by (simp add: parse_quote_unit cons_unit_def)
next
  case (3 c d cs)
  show ?case
  proof (cases "is_leading_surrogate c \<and> is_trailing_surrogate d")
    case True
    then have q: "quote_units (c # d # cs) = c # d # quote_units cs" by simp
    from True have "parse_chars (c # d # quote_units cs @ 0x22 # rest)
        = cons_unit c (cons_unit d (parse_chars (quote_units cs @ 0x22 # rest)))"
      by (simp only: parse_pair)
    with "3.IH"(1) [OF True] show ?thesis by (simp only: q append_Cons) (simp add: cons_unit_def)
  next
    case False
    then have q: "quote_units (c # d # cs) = quote_unit c @ quote_units (d # cs)" by auto
    have "parse_chars (quote_unit c @ quote_units (d # cs) @ 0x22 # rest)
        = cons_unit c (parse_chars (quote_units (d # cs) @ 0x22 # rest))"
      by (rule parse_quote_unit)
    with "3.IH"(2) [OF False] show ?thesis by (simp only: q append_assoc) (simp add: cons_unit_def)
  qed
qed

subsection \<open>White space\<close>

lemma skip_ws_append: "\<forall>c \<in> set w. is_json_space c \<Longrightarrow> skip_ws (w @ s) = skip_ws s"
  by (induction w) (auto simp: skip_ws_def)

lemma skip_ws_Cons: "\<not> is_json_space c \<Longrightarrow> skip_ws (c # s) = c # s"
  by (simp add: skip_ws_def)

lemma parse_value_ws:
  "\<forall>c \<in> set w. is_json_space c \<Longrightarrow> parse_value num f (w @ s) = parse_value num f s"
  by (cases f) (simp_all add: skip_ws_append)

lemma parse_members_ws:
  "\<forall>c \<in> set w. is_json_space c \<Longrightarrow> parse_members num f (w @ s) = parse_members num f s"
  by (cases f) (simp_all add: skip_ws_append)

lemma parse_elements_ws:
  "\<forall>c \<in> set w. is_json_space c \<Longrightarrow> parse_elements num f (w @ s) = parse_elements num f s"
  by (cases f) (simp_all add: parse_value_ws)

subsection \<open>Objects\<close>

lemma insert_property_last:
  "\<forall>p \<in> set obj. \<not> enumerated_before k (fst p) \<Longrightarrow> insert_property k v obj = obj @ [(k, v)]"
  by (induction obj) auto

lemma set_property_new:
  "k \<notin> fst ` set obj \<Longrightarrow> \<forall>p \<in> set obj. \<not> enumerated_before k (fst p) \<Longrightarrow>
   set_property k v obj = obj @ [(k, v)]"
  by (simp add: set_property_def insert_property_last)

lemma fold_set_property:
  "own_keys (map fst (acc @ ms)) \<Longrightarrow>
   foldl (\<lambda>obj (k, v). set_property k v obj) acc ms = acc @ ms"
proof (induction ms arbitrary: acc)
  case Nil
  show ?case by simp
next
  case (Cons m ms)
  obtain k v where m: "m = (k, v)" by (cases m)
  from Cons.prems m have "k \<notin> fst ` set acc" by (auto simp: own_keys_def)
  moreover from Cons.prems m have "\<forall>p \<in> set acc. \<not> enumerated_before k (fst p)"
    by (auto simp: own_keys_def sorted_wrt_append)
  ultimately have s: "set_property k v acc = acc @ [(k, v)]" by (rule set_property_new)
  from Cons.prems m have "own_keys (map fst ((acc @ [(k, v)]) @ ms))" by simp
  from Cons.IH [OF this] show ?case by (simp add: m s)
qed

lemma object_of_own_keys: "own_keys (map fst ms) \<Longrightarrow> object_of ms = ms"
  using fold_set_property [of "[]" ms] by (simp add: object_of_def)

text \<open>The value read for an object has its keys in the order of enumeration.\<close>

lemma insert_property_keys: "set (map fst (insert_property k v obj)) = insert k (set (map fst obj))"
  by (induction obj) auto

lemma insert_property_own_keys:
  "own_keys (map fst obj) \<Longrightarrow> k \<notin> set (map fst obj) \<Longrightarrow> own_keys (map fst (insert_property k v obj))"
proof (induction obj)
  case Nil
  then show ?case by (simp add: own_keys_def)
next
  case (Cons p ps)
  from Cons.prems have t: "own_keys (map fst ps)" "k \<notin> set (map fst ps)" "k \<noteq> fst p"
    by (auto simp: own_keys_def)
  show ?case
  proof (cases "enumerated_before k (fst p)")
    case True
    have "\<not> enumerated_before q k" if "q = fst p \<or> (q \<in> set (map fst ps))" for q
    proof -
      from that Cons.prems have "q = fst p \<or> \<not> enumerated_before q (fst p)"
        by (auto simp: own_keys_def)
      with True show ?thesis
        by (auto simp: enumerated_before_def split: option.splits)
    qed
    with True Cons.prems show ?thesis by (auto simp: own_keys_def)
  next
    case False
    from Cons.IH [OF t(1,2)] have ih: "own_keys (map fst (insert_property k v ps))" .
    have "set (map fst (insert_property k v ps)) = insert k (set (map fst ps))"
      by (rule insert_property_keys)
    with False ih Cons.prems show ?thesis by (auto simp: own_keys_def)
  qed
qed

lemma set_property_own_keys:
  "own_keys (map fst obj) \<Longrightarrow> own_keys (map fst (set_property k v obj))"
proof (cases "k \<in> set (map fst obj)")
  case True
  have "map fst (map (\<lambda>p. if fst p = k then (k, v) else p) obj) = map fst obj"
    by (induction obj) auto
  moreover assume "own_keys (map fst obj)"
  ultimately show ?thesis using True by (simp add: set_property_def del: map_map)
next
  case False
  moreover assume "own_keys (map fst obj)"
  ultimately show ?thesis by (simp add: set_property_def insert_property_own_keys del: map_map)
qed

lemma fold_set_property_own_keys:
  "own_keys (map fst acc) \<Longrightarrow>
   own_keys (map fst (foldl (\<lambda>obj (k, v). set_property k v obj) acc ms))"
proof (induction ms arbitrary: acc)
  case Nil
  then show ?case by simp
next
  case (Cons m ms)
  obtain k v where m: "m = (k, v)" by (cases m)
  from Cons.prems have "own_keys (map fst (set_property k v acc))" by (rule set_property_own_keys)
  from Cons.IH [OF this] show ?case by (simp add: m)
qed

lemma object_of_keys: "own_keys (map fst (object_of ms))"
  using fold_set_property_own_keys [of "[]" ms] by (simp add: object_of_def own_keys_def)

text \<open>The array indices are the decimal texts of the integers below \<open>2^32 - 1\<close>.\<close>

lemma digit_of_char: "is_digit c \<Longrightarrow> digit (unat c - 48) = c"
  unfolding is_digit_def digit_def
  by (simp add: word_le_nat_alt)

lemma char_of_digit: "d < 10 \<Longrightarrow> is_digit (digit d) \<and> unat (digit d) - 48 = d"
  unfolding is_digit_def digit_def
  by (simp add: word_le_nat_alt unat_of_nat del: of_nat_add)

lemma decimal_value_snoc: "decimal_value (ks @ [c]) = 10 * decimal_value ks + (unat c - 48)"
  by (simp add: decimal_value_def)

lemma decimal_value_toString: "decimal_value (toString n) = n"
proof (induction n rule: toString.induct)
  case (1 n)
  show ?case
  proof (cases "n < 10")
    case True
    then show ?thesis using char_of_digit [of n] by (simp add: toString.simps [of n] decimal_value_def)
  next
    case False
    with 1 have "decimal_value (toString (n div 10)) = n div 10" by simp
    with False char_of_digit [of "n mod 10"] show ?thesis
      by (simp add: toString.simps [of n] decimal_value_snoc)
  qed
qed

lemma toString_digits: "list_all is_digit (toString n) \<and> toString n \<noteq> []"
proof (induction n rule: toString.induct)
  case (1 n)
  show ?case
  proof (cases "n < 10")
    case True
    then show ?thesis using char_of_digit [of n] by (simp add: toString.simps [of n])
  next
    case False
    with 1 char_of_digit [of "n mod 10"] show ?thesis by (simp add: toString.simps [of n])
  qed
qed

lemma toString_hd: "hd (toString n) = 0x30 \<Longrightarrow> toString n = [0x30]"
proof (induction n rule: toString.induct)
  case (1 n)
  show ?case
  proof (cases "n < 10")
    case True
    with "1.prems" show ?thesis by (simp add: toString.simps [of n])
  next
    case False
    from toString_digits [of "n div 10"] have ne: "toString (n div 10) \<noteq> []" by simp
    with False "1.prems" have "hd (toString (n div 10)) = 0x30"
      by (simp add: toString.simps [of n])
    with "1.IH" False have "toString (n div 10) = [0x30]" by simp
    then have "decimal_value (toString (n div 10)) = 0" by (simp add: decimal_value_def)
    with decimal_value_toString [of "n div 10"] False show ?thesis by simp
  qed
qed

lemma toString_decimal_value:
  "k \<noteq> [] \<Longrightarrow> list_all is_digit k \<Longrightarrow> k = [0x30] \<or> hd k \<noteq> 0x30 \<Longrightarrow> toString (decimal_value k) = k"
proof (induction k rule: rev_induct)
  case Nil
  then show ?case by simp
next
  case (snoc c ks)
  from snoc.prems have c: "is_digit c" by simp
  then have "48 \<le> unat c \<and> unat c \<le> 57" unfolding is_digit_def by (simp add: word_le_nat_alt)
  then have d: "unat c - 48 < 10" by arith
  show ?case
  proof (cases "ks = []")
    case True
    with d digit_of_char [OF c] show ?thesis
      by (simp add: decimal_value_def toString.simps [of "unat c - 48"])
  next
    case False
    with snoc.prems have h: "hd ks \<noteq> 0x30" by (cases ks) auto
    from snoc.prems have a: "list_all is_digit ks" by simp
    from snoc.IH [OF False a] h have ih: "toString (decimal_value ks) = ks" by simp
    have "decimal_value ks \<noteq> 0"
    proof
      assume "decimal_value ks = 0"
      with ih have "ks = toString 0" by simp
      with h show False by (simp add: toString.simps [of 0] digit_def)
    qed
    then have ge: "\<not> 10 * decimal_value ks + (unat c - 48) < 10" by simp
    have "(10 * decimal_value ks + (unat c - 48)) div 10 = decimal_value ks"
      "(10 * decimal_value ks + (unat c - 48)) mod 10 = unat c - 48"
      using d by simp_all
    with ge ih digit_of_char [OF c] show ?thesis
      by (simp add: decimal_value_snoc toString.simps [of "10 * decimal_value ks + (unat c - 48)"])
  qed
qed

lemma array_index_iff: "array_index k = Some n \<longleftrightarrow> k = toString n \<and> n < 4294967295"
proof
  assume "array_index k = Some n"
  then have "k \<noteq> []" "list_all is_digit k" "k = [0x30] \<or> hd k \<noteq> 0x30" "decimal_value k = n"
    "n < 4294967295"
    by (auto simp: array_index_def split: if_splits)
  with toString_decimal_value [of k] show "k = toString n \<and> n < 4294967295" by simp
next
  assume a: "k = toString n \<and> n < 4294967295"
  with toString_digits [of n] toString_hd [of n] decimal_value_toString [of n]
  show "array_index k = Some n" by (auto simp: array_index_def)
qed

subsection \<open>First character of a serialised value\<close>

lemma serialized_first:
  "plain v \<Longrightarrow> \<exists>c t. SerializeJSONProperty ns gap ind v = c # t \<and>
      c \<in> {0x22, 0x5B, 0x7B, 0x74, 0x66, 0x6E}"
  by (cases v) (auto simp: ascii_def QuoteJSONString_def)

lemma first_not_space:
  "c \<in> {0x22, 0x5B, 0x7B, 0x74, 0x66, 0x6E} \<Longrightarrow>
   \<not> is_json_space c \<and> c \<noteq> 0x5D \<and> c \<noteq> 0x7D \<and> c \<noteq> 0x2C"
  by (auto simp: is_json_space_def)

subsection \<open>Reading back a serialised value\<close>

lemma parse_atom:
  "parse_value num (Suc f) (ascii ''null'' @ rest) = Some (JNull, rest)"
  "parse_value num (Suc f) (ascii ''true'' @ rest) = Some (JBool True, rest)"
  "parse_value num (Suc f) (ascii ''false'' @ rest) = Some (JBool False, rest)"
  "parse_value num (Suc f) (QuoteJSONString s @ rest) = Some (JStr s, rest)"
  "parse_value num (Suc f) (ascii ''[]'' @ rest) = Some (JArr [], rest)"
  "parse_value num (Suc f) (ascii ''{}'' @ rest) = Some (JObj [], rest)"
  by (simp_all add: ascii_def skip_ws_def is_json_space_def QuoteJSONString_def parse_quote_units
      parse_literal_def)

text \<open>The elements of an array, after the opening bracket.\<close>

lemma parse_serialized_elements:
  assumes ih: "\<And>v f rest. v \<in> set vs \<Longrightarrow> need v \<le> f \<Longrightarrow>
                 parse_value num f (str v @ rest) = Some (v, rest)"
    and first: "\<And>v. v \<in> set vs \<Longrightarrow> \<exists>c t. str v = c # t \<and> c \<in> {0x22, 0x5B, 0x7B, 0x74, 0x66, 0x6E}"
    and ws: "\<forall>c \<in> set w. is_json_space c" "\<forall>c \<in> set ind. is_json_space c"
      "\<forall>c \<in> set ind'. is_json_space c"
    and ne: "vs \<noteq> []"
    and fuel: "sum_list (map (\<lambda>v. Suc (need v)) vs) \<le> f"
  shows "parse_elements num f
           (w @ join ([0x2C, 0x0A] @ ind') (map str vs) @ [0x0A] @ ind @ [0x5D] @ rest)
         = Some (vs, rest)"
  using ih first ws(1) ne fuel
proof (induction vs arbitrary: f w)
  case Nil
  then show ?case by simp
next
  case (Cons v vs)
  from Cons.prems(5) obtain f' where f: "f = Suc f'" and nv: "need v \<le> f'"
    and rest_fuel: "sum_list (map (\<lambda>v. Suc (need v)) vs) \<le> f'"
    by (cases f) auto
  have pv: "parse_value num f' (w @ str v @ X) = Some (v, X)" for X
    using Cons.prems(1) [of v f' X] nv Cons.prems(3) by (simp add: parse_value_ws)
  show ?case
  proof (cases vs)
    case Nil
    have "skip_ws ([0x0A] @ ind @ [0x5D] @ rest) = 0x5D # rest"
      using ws(2) by (simp add: skip_ws_def is_json_space_def dropWhile_append)
    with pv [of "[0x0A] @ ind @ [0x5D] @ rest"] show ?thesis
      by (simp add: f Nil)
  next
    case (Cons v2 vs2)
    have j: "join (0x2C # 0x0A # ind') (str v # map str vs)
             = str v @ 0x2C # 0x0A # ind' @ join (0x2C # 0x0A # ind') (map str vs)"
      by (simp add: Cons)
    have w': "\<forall>c \<in> set ([0x0A] @ ind'). is_json_space c"
      using ws(3) by (simp add: is_json_space_def)
    have "parse_elements num f'
            (([0x0A] @ ind') @ join ([0x2C, 0x0A] @ ind') (map str vs) @ [0x0A] @ ind @ [0x5D] @ rest)
          = Some (vs, rest)"
      by (rule Cons.IH [OF _ _ w' _ rest_fuel])
        (use Cons.prems(1,2) Cons in auto)
    with pv [of "[0x2C, 0x0A] @ ind' @ join ([0x2C, 0x0A] @ ind') (map str vs)
                   @ [0x0A] @ ind @ [0x5D] @ rest"]
    show ?thesis
      by (simp add: f j skip_ws_def is_json_space_def)
  qed
qed


text \<open>The members of an object, after the opening brace.\<close>

lemma parse_serialized_member:
  assumes "\<forall>c \<in> set w. is_json_space c"
    and "parse_value num f (t @ X) = Some (v, X)"
  shows "parse_members num (Suc f) (w @ QuoteJSONString k @ [0x3A, 0x20] @ t @ X) =
     (case skip_ws X of
        [] \<Rightarrow> None
      | e # es \<Rightarrow>
          if e = 0x2C then
            (case parse_members num f es of
               None \<Rightarrow> None
             | Some (ms, r) \<Rightarrow> Some ((k, v) # ms, r))
          else if e = 0x7D then Some ([(k, v)], es)
          else None)"
proof -
  have a: "skip_ws (w @ QuoteJSONString k @ [0x3A, 0x20] @ t @ X)
           = 0x22 # quote_units k @ 0x22 # 0x3A # 0x20 # t @ X"
    using assms(1) by (simp add: skip_ws_append QuoteJSONString_def skip_ws_Cons is_json_space_def)
  have b: "parse_chars (quote_units k @ 0x22 # 0x3A # 0x20 # t @ X) = Some (k, 0x3A # 0x20 # t @ X)"
    by (rule parse_quote_units)
  have c: "skip_ws (0x3A # 0x20 # t @ X) = 0x3A # 0x20 # t @ X"
    by (simp add: skip_ws_Cons is_json_space_def)
  have d: "parse_value num f (0x20 # t @ X) = Some (v, X)"
    using parse_value_ws [of "[0x20]" num f "t @ X"] assms(2) by (simp add: is_json_space_def)
  show ?thesis
    by (simp only: parse_members.simps a b c d list.case option.case prod.case if_True simp_thms)
qed

lemma parse_serialized_members:
  assumes ih: "\<And>m f rest. m \<in> set ms \<Longrightarrow> need (snd m) \<le> f \<Longrightarrow>
                 parse_value num f (str (snd m) @ rest) = Some (snd m, rest)"
    and ws: "\<forall>c \<in> set w. is_json_space c" "\<forall>c \<in> set ind. is_json_space c"
      "\<forall>c \<in> set ind'. is_json_space c"
    and ne: "ms \<noteq> []"
    and fuel: "sum_list (map (\<lambda>m. Suc (need (snd m))) ms) \<le> f"
  shows "parse_members num f
           (w @ join ([0x2C, 0x0A] @ ind')
                  (map (\<lambda>m. QuoteJSONString (fst m) @ [0x3A, 0x20] @ str (snd m)) ms)
              @ [0x0A] @ ind @ [0x7D] @ rest)
         = Some (ms, rest)"
  using ih ws(1) ne fuel
proof (induction ms arbitrary: f w)
  case Nil
  then show ?case by simp
next
  case (Cons m ms)
  obtain k v where m: "m = (k, v)" by (cases m)
  from Cons.prems(4) m obtain f' where f: "f = Suc f'" and nv: "need v \<le> f'"
    and rest_fuel: "sum_list (map (\<lambda>m. Suc (need (snd m))) ms) \<le> f'"
    by (cases f) auto
  have pv: "parse_value num f' (str v @ X) = Some (v, X)" for X
    using Cons.prems(1) [of m f' X] nv m by simp
  note step = parse_serialized_member [OF Cons.prems(2) pv, of k]
  show ?case
  proof (cases ms)
    case Nil
    have "skip_ws ([0x0A] @ ind @ [0x7D] @ rest) = 0x7D # rest"
      using ws(2) by (simp add: skip_ws_def is_json_space_def dropWhile_append)
    with step [of "[0x0A] @ ind @ [0x7D] @ rest"] show ?thesis
      by (simp add: f m Nil)
  next
    case (Cons m2 ms2)
    let ?mem = "\<lambda>m. QuoteJSONString (fst m) @ 0x3A # 0x20 # str (snd m)"
    let ?tail = "join (0x2C # 0x0A # ind') (map ?mem ms) @ 0x0A # ind @ 0x7D # rest"
    have j: "join (0x2C # 0x0A # ind') ((QuoteJSONString k @ 0x3A # 0x20 # str v) # map ?mem ms)
             = (QuoteJSONString k @ 0x3A # 0x20 # str v) @ 0x2C # 0x0A # ind' @
               join (0x2C # 0x0A # ind') (map ?mem ms)"
      by (simp add: Cons)
    have w': "\<forall>c \<in> set ([0x0A] @ ind'). is_json_space c"
      using ws(3) by (simp add: is_json_space_def)
    have ih': "\<And>m f rest. m \<in> set ms \<Longrightarrow> need (snd m) \<le> f \<Longrightarrow>
                 parse_value num f (str (snd m) @ rest) = Some (snd m, rest)"
      using Cons.prems(1) by simp
    have nonempty: "ms \<noteq> []" using Cons by simp
    from Cons.IH [OF ih' w' nonempty rest_fuel]
    have tl': "parse_members num f' (0x0A # ind' @ ?tail) = Some (ms, rest)"
      by simp
    have sk: "skip_ws (0x2C # 0x0A # ind' @ ?tail) = 0x2C # 0x0A # ind' @ ?tail"
      by (simp add: skip_ws_Cons is_json_space_def)
    have "parse_members num (Suc f')
            (w @ QuoteJSONString k @ [0x3A, 0x20] @ str v @ 0x2C # 0x0A # ind' @ ?tail)
          = Some ((k, v) # ms, rest)"
      by (simp only: step sk tl' list.case option.case prod.case if_True simp_thms)
    then show ?thesis
      by (simp add: f m j del: parse_members.simps)
  qed
qed

lemma plain_elements: "plain (JArr vs) \<Longrightarrow> v \<in> set vs \<Longrightarrow> plain v"
  by (simp add: list_all_iff)

lemma plain_members: "plain (JObj ms) \<Longrightarrow> m \<in> set ms \<Longrightarrow> plain (snd m)"
  by (simp add: list_all_iff)

lemma parse_serialized:
  assumes "plain v" "\<forall>c \<in> set gap. is_json_space c" "\<forall>c \<in> set ind. is_json_space c"
    "need v \<le> f"
  shows "parse_value num f (SerializeJSONProperty ns gap ind v @ rest) = Some (v, rest)"
  using assms
proof (induction v arbitrary: f ind rest)
  case JNull
  then show ?case by (cases f) (simp_all add: parse_atom del: parse_value.simps)
next
  case (JBool b)
  then show ?case by (cases f; cases b) (simp_all add: parse_atom del: parse_value.simps)
next
  case (JNum n)
  then show ?case by simp
next
  case (JStr s)
  then show ?case by (cases f) (simp_all add: parse_atom del: parse_value.simps)
next
  case (JArr vs)
  from JArr.prems(4) obtain f' where f: "f = Suc f'"
    and fuel: "sum_list (map (\<lambda>v. Suc (need v)) vs) \<le> f'"
    by (cases f) auto
  show ?case
  proof (cases "vs = []")
    case True
    then show ?thesis by (simp add: f parse_atom del: parse_value.simps)
  next
    case False
    let ?ind = "ind @ gap"
    let ?str = "SerializeJSONProperty ns gap ?ind"
    have wi: "\<forall>c \<in> set ?ind. is_json_space c" using JArr.prems(2,3) by auto
    have ih: "\<And>v f rest. v \<in> set vs \<Longrightarrow> need v \<le> f \<Longrightarrow>
                parse_value num f (?str v @ rest) = Some (v, rest)"
      using JArr.IH JArr.prems(1,2) wi plain_elements by blast
    have first: "\<And>v. v \<in> set vs \<Longrightarrow>
        \<exists>c t. ?str v = c # t \<and> c \<in> {0x22, 0x5B, 0x7B, 0x74, 0x66, 0x6E}"
      using serialized_first JArr.prems(1) plain_elements by blast
    have w: "\<forall>c \<in> set ([0x0A] @ ?ind). is_json_space c"
      using wi by (simp add: is_json_space_def)
    let ?body = "join ([0x2C, 0x0A] @ ?ind) (map ?str vs) @ [0x0A] @ ind @ [0x5D] @ rest"
    have el: "parse_elements num f' (([0x0A] @ ?ind) @ ?body) = Some (vs, rest)"
      by (rule parse_serialized_elements [OF ih first w JArr.prems(3) wi False fuel])
    from False obtain v0 vs0 where vs: "vs = v0 # vs0" by (cases vs) auto
    from first [of v0] vs obtain c t where ct: "?str v0 = c # t"
      and c: "c \<in> {0x22, 0x5B, 0x7B, 0x74, 0x66, 0x6E}" by auto
    have "\<exists>u. ?body = c # u" by (cases vs0) (simp_all add: vs ct)
    then obtain u where u: "?body = c # u" ..
    have sk: "skip_ws (([0x0A] @ ?ind) @ ?body) = c # u"
      using first_not_space [OF c] w by (simp only: skip_ws_append u) (simp add: skip_ws_Cons)
    have c5: "c \<noteq> 0x5D" using first_not_space [OF c] by simp
    have shape: "SerializeJSONProperty ns gap ind (JArr vs) @ rest
               = 0x5B # (([0x0A] @ ?ind) @ ?body)"
      using False by simp
    have "parse_value num (Suc f') (0x5B # (([0x0A] @ ?ind) @ ?body)) = Some (JArr vs, rest)"
      using c5 by (simp add: skip_ws_Cons is_json_space_def sk el del: append_assoc append_Cons)
    then show ?thesis by (simp only: shape f)
  qed
next
  case (JObj ms)
  from JObj.prems(4) obtain f' where f: "f = Suc f'"
    and fuel: "sum_list (map (\<lambda>m. Suc (need (snd m))) ms) \<le> f'"
    by (cases f) auto
  show ?case
  proof (cases "ms = []")
    case True
    then show ?thesis by (simp add: f parse_atom del: parse_value.simps)
  next
    case False
    let ?ind = "ind @ gap"
    let ?str = "SerializeJSONProperty ns gap ?ind"
    let ?mem = "\<lambda>m. QuoteJSONString (fst m) @ [0x3A, 0x20] @ ?str (snd m)"
    have wi: "\<forall>c \<in> set ?ind. is_json_space c" using JObj.prems(2,3) by auto
    have ih: "\<And>m f rest. m \<in> set ms \<Longrightarrow> need (snd m) \<le> f \<Longrightarrow>
                parse_value num f (?str (snd m) @ rest) = Some (snd m, rest)"
    proof -
      fix m f rest assume m: "m \<in> set ms" and n: "need (snd m) \<le> f"
      obtain k v where kv: "m = (k, v)" by (cases m)
      from m kv have "v \<in> Basic_BNFs.snds m" by simp
      from JObj.IH [OF m this plain_members [OF JObj.prems(1) m, unfolded kv snd_conv]
          JObj.prems(2) wi, of f rest] n kv
      show "parse_value num f (?str (snd m) @ rest) = Some (snd m, rest)" by simp
    qed
    have w: "\<forall>c \<in> set ([0x0A] @ ?ind). is_json_space c"
      using wi by (simp add: is_json_space_def)
    let ?body = "join ([0x2C, 0x0A] @ ?ind) (map ?mem ms) @ [0x0A] @ ind @ [0x7D] @ rest"
    have el: "parse_members num f' (([0x0A] @ ?ind) @ ?body) = Some (ms, rest)"
      by (rule parse_serialized_members [OF ih w JObj.prems(3) wi False fuel])
    from False obtain m0 ms0 where ms: "ms = m0 # ms0" by (cases ms) auto
    have "\<exists>u. ?body = 0x22 # u" by (cases ms0) (simp_all add: ms QuoteJSONString_def)
    then obtain u where u: "?body = 0x22 # u" ..
    have sk: "skip_ws (([0x0A] @ ?ind) @ ?body) = 0x22 # u"
      using w by (simp only: skip_ws_append u) (simp add: skip_ws_Cons is_json_space_def)
    have mm: "map (\<lambda>(k, v). QuoteJSONString k @ 0x3A # 0x20 # ?str v) ms
              = map (\<lambda>m. QuoteJSONString (fst m) @ 0x3A # 0x20 # ?str (snd m)) ms"
      by (rule map_cong) auto
    have shape: "SerializeJSONProperty ns gap ind (JObj ms) @ rest
               = 0x7B # (([0x0A] @ ?ind) @ ?body)"
      using False by (simp add: mm)
    have d: "own_keys (map fst ms)" using JObj.prems(1) by simp
    have "parse_value num (Suc f') (0x7B # (([0x0A] @ ?ind) @ ?body)) = Some (JObj ms, rest)"
      by (simp add: skip_ws_Cons is_json_space_def sk el object_of_own_keys [OF d]
          del: append_assoc append_Cons)
    then show ?thesis by (simp only: shape f)
  qed
qed

subsection \<open>The text is long enough for the descent\<close>

lemma length_join_ge: "sum_list (map length xs) \<le> length (join sep xs)"
  by (induction sep xs rule: join.induct) auto

lemma sum_list_le:
  "(\<And>x. x \<in> set xs \<Longrightarrow> f x \<le> (g x :: nat)) \<Longrightarrow> sum_list (map f xs) \<le> sum_list (map g xs)"
  by (induction xs) (auto intro: add_mono)

lemma need_le_length:
  "plain v \<Longrightarrow> Suc (need v) \<le> length (SerializeJSONProperty ns gap ind v)"
proof (induction v arbitrary: ind)
  case (JArr vs)
  show ?case
  proof (cases "vs = []")
    case True
    then show ?thesis by (simp add: ascii_def)
  next
    case False
    let ?str = "SerializeJSONProperty ns gap (ind @ gap)"
    have "sum_list (map (\<lambda>v. Suc (need v)) vs) \<le> sum_list (map (\<lambda>v. length (?str v)) vs)"
      by (rule sum_list_le) (use JArr plain_elements in blast)
    also have "\<dots> = sum_list (map length (map ?str vs))" by (simp add: comp_def)
    also have "\<dots> \<le> length (join ([0x2C, 0x0A] @ (ind @ gap)) (map ?str vs))"
      by (rule length_join_ge)
    finally show ?thesis using False by simp
  qed
next
  case (JObj ms)
  show ?case
  proof (cases "ms = []")
    case True
    then show ?thesis by (simp add: ascii_def)
  next
    case False
    let ?str = "SerializeJSONProperty ns gap (ind @ gap)"
    let ?mem = "\<lambda>(k, v). QuoteJSONString k @ [0x3A, 0x20] @ ?str v"
    have "sum_list (map (\<lambda>m. Suc (need (snd m))) ms) \<le> sum_list (map (\<lambda>m. length (?mem m)) ms)"
    proof (rule sum_list_le)
      fix m assume m: "m \<in> set ms"
      obtain k v where kv: "m = (k, v)" by (cases m)
      from m kv have "v \<in> Basic_BNFs.snds m" by simp
      from JObj.IH [OF m this, of "ind @ gap"] plain_members [OF JObj.prems m] kv
      show "Suc (need (snd m)) \<le> length (?mem m)" by simp
    qed
    also have "\<dots> = sum_list (map length (map ?mem ms))" by (simp add: comp_def)
    also have "\<dots> \<le> length (join ([0x2C, 0x0A] @ (ind @ gap)) (map ?mem ms))"
      by (rule length_join_ge)
    finally show ?thesis using False by simp
  qed
qed (simp_all add: ascii_def QuoteJSONString_def)

lemma JSON_roundtrip: "plain v \<Longrightarrow> JSON_parse num (JSON_stringify2 ns v) = Some v"
proof -
  assume p: "plain v"
  let ?text = "SerializeJSONProperty ns (ascii ''  '') [] v"
  have g: "\<forall>c \<in> set (ascii ''  ''). is_json_space c" by (simp add: ascii_def is_json_space_def)
  have n: "need v \<le> Suc (length ?text)" using need_le_length [OF p, of ns "ascii ''  ''" "[]"] by simp
  have "parse_value num (Suc (length ?text)) (?text @ []) = Some (v, [])"
    by (rule parse_serialized [OF p g _ n]) simp
  then show ?thesis by (simp add: JSON_parse_def JSON_stringify2_def skip_ws_def del: parse_value.simps)
qed

subsection \<open>The bound on the descent is never the reason for a rejection\<close>

lemma length_skip_ws: "length (skip_ws s) \<le> length s"
  by (simp add: skip_ws_def length_dropWhile_le)

lemma parse_chars_shorter: "parse_chars cs = Some (x, r) \<Longrightarrow> length r < length cs"
proof (induction "length cs" arbitrary: cs x r rule: less_induct)
  case less
  show ?case
  proof (cases cs)
    case Nil
    with less.prems show ?thesis by simp
  next
    case (Cons c t)
    with less.prems have "r = t \<or> (\<exists>t' y. length t' \<le> length t \<and> parse_chars t' = Some (y, r))"
      by (auto simp: cons_unit_def split: if_splits list.splits option.splits)
    then show ?thesis
    proof
      assume "r = t"
      with Cons show ?thesis by simp
    next
      assume "\<exists>t' y. length t' \<le> length t \<and> parse_chars t' = Some (y, r)"
      then obtain t' y where l: "length t' \<le> length t" and p: "parse_chars t' = Some (y, r)"
        by blast
      from l Cons have "length t' < length cs" by simp
      from less.hyps [OF this p] l Cons show ?thesis by simp
    qed
  qed
qed

lemma scan_digits_shorter: "scan_digits s = Some (ds, r) \<Longrightarrow> length r < length s"
proof -
  assume a: "scan_digits s = Some (ds, r)"
  then have t: "takeWhile is_digit s \<noteq> []" and r: "r = dropWhile is_digit s"
    by (auto simp: scan_digits_def split: if_splits)
  have "length (takeWhile is_digit s) + length (dropWhile is_digit s) = length s"
    by (metis length_append takeWhile_dropWhile_id)
  with t r show ?thesis by (cases "takeWhile is_digit s") auto
qed

lemma scan_int_shorter: "scan_int s = Some (i, r) \<Longrightarrow> length r < length s"
  by (auto simp: scan_int_def split: list.splits if_splits dest: scan_digits_shorter)

lemma scan_frac_le: "scan_frac s = Some (x, r) \<Longrightarrow> length r \<le> length s"
  by (auto simp: scan_frac_def split: list.splits if_splits option.splits dest: scan_digits_shorter)

lemma scan_exp_le: "scan_exp s = Some (x, r) \<Longrightarrow> length r \<le> length s"
  by (auto simp: scan_exp_def split: list.splits if_splits option.splits dest: scan_digits_shorter)

lemma scan_number_shorter: "scan_number s = Some (lit, r) \<Longrightarrow> length r < length s"
proof -
  assume a: "scan_number s = Some (lit, r)"
  obtain sg s1 where sg: "(case s of c # cs \<Rightarrow> if c = 0x2D then ([c], cs) else ([], s) | [] \<Rightarrow> ([], s)) = (sg, s1)"
    by fastforce
  then have l1: "length s1 \<le> length s" by (auto split: list.splits if_splits)
  from a sg obtain i s2 f s3 e where i: "scan_int s1 = Some (i, s2)"
    and f: "scan_frac s2 = Some (f, s3)" and e: "scan_exp s3 = Some (e, r)"
    by (auto simp: scan_number_def split: option.splits)
  from scan_int_shorter [OF i] scan_frac_le [OF f] scan_exp_le [OF e] l1 show ?thesis by simp
qed

lemma drop_literal:
  "take n s = t \<Longrightarrow> length t = n \<Longrightarrow> 0 < n \<Longrightarrow> length (drop n s) < length s"
proof -
  assume "take n s = t" "length t = n" "0 < n"
  then have "min (length s) n = n" "0 < n" by auto
  then show ?thesis by auto
qed

lemma parse_literal_shorter: "parse_literal num s = Some (v, r) \<Longrightarrow> length r < length s"
proof -
  assume a: "parse_literal num s = Some (v, r)"
  have t: "take 4 s = ascii ''true'' \<Longrightarrow> length (drop 4 s) < length s"
    using drop_literal [of 4 s "ascii ''true''"] by (simp add: ascii_def)
  have f: "take 5 s = ascii ''false'' \<Longrightarrow> length (drop 5 s) < length s"
    using drop_literal [of 5 s "ascii ''false''"] by (simp add: ascii_def)
  have n: "take 4 s = ascii ''null'' \<Longrightarrow> length (drop 4 s) < length s"
    using drop_literal [of 4 s "ascii ''null''"] by (simp add: ascii_def)
  from a t f n show ?thesis
    by (auto simp: parse_literal_def split: if_splits option.splits dest: scan_number_shorter)
qed

text \<open>What \<open>parse_value\<close> does, by the first character after white space.\<close>

lemma parse_value_cases:
  assumes "skip_ws s = c # cs"
  shows "c = 0x22 \<Longrightarrow> parse_value num (Suc f) s =
           (case parse_chars cs of None \<Rightarrow> None | Some (str, r) \<Rightarrow> Some (JStr str, r))"
    and "c = 0x5B \<Longrightarrow> skip_ws cs = [] \<Longrightarrow> parse_value num (Suc f) s = None"
    and "c = 0x5B \<Longrightarrow> skip_ws cs = 0x5D # ds \<Longrightarrow> parse_value num (Suc f) s = Some (JArr [], ds)"
    and "c = 0x5B \<Longrightarrow> skip_ws cs = d # ds \<Longrightarrow> d \<noteq> 0x5D \<Longrightarrow> parse_value num (Suc f) s =
           (case parse_elements num f cs of None \<Rightarrow> None | Some (vs, r) \<Rightarrow> Some (JArr vs, r))"
    and "c = 0x7B \<Longrightarrow> skip_ws cs = [] \<Longrightarrow> parse_value num (Suc f) s = None"
    and "c = 0x7B \<Longrightarrow> skip_ws cs = 0x7D # ds \<Longrightarrow> parse_value num (Suc f) s = Some (JObj [], ds)"
    and "c = 0x7B \<Longrightarrow> skip_ws cs = d # ds \<Longrightarrow> d \<noteq> 0x7D \<Longrightarrow> parse_value num (Suc f) s =
           (case parse_members num f cs of None \<Rightarrow> None | Some (ms, r) \<Rightarrow> Some (JObj (object_of ms), r))"
    and "c \<noteq> 0x22 \<Longrightarrow> c \<noteq> 0x5B \<Longrightarrow> c \<noteq> 0x7B \<Longrightarrow>
           parse_value num (Suc f) s = parse_literal num (c # cs)"
  using assms by simp_all

lemma value_fuel_step:
  assumes el: "\<And>s vs r. parse_elements num f s = Some (vs, r) \<Longrightarrow>
      length r < length s \<and> (\<forall>g. length s - length r \<le> g \<longrightarrow> parse_elements num g s = Some (vs, r))"
    and mem: "\<And>s ms r. parse_members num f s = Some (ms, r) \<Longrightarrow>
      length r < length s \<and> (\<forall>g. length s - length r \<le> g \<longrightarrow> parse_members num g s = Some (ms, r))"
    and a: "parse_value num (Suc f) s = Some (v, r)"
  shows "length r < length s \<and> (\<forall>g. length s - length r \<le> g \<longrightarrow> parse_value num g s = Some (v, r))"
proof -
  from a obtain c cs where sk: "skip_ws s = c # cs"
    by (cases "skip_ws s") auto
  note pc = parse_value_cases [OF sk, where num = num]
  have len: "Suc (length cs) \<le> length s" using length_skip_ws [of s] sk by simp
  have flat: "length r < length s \<and>
      (\<forall>g. length s - length r \<le> g \<longrightarrow> parse_value num g s = Some (v, r))"
    if short: "length r \<le> length cs" and same: "\<And>g. parse_value num (Suc g) s = Some (v, r)"
  proof -
    have "parse_value num g s = Some (v, r)" if "length s - length r \<le> g" for g
    proof -
      from that short len obtain g' where "g = Suc g'" by (cases g) auto
      with same show ?thesis by simp
    qed
    with short len show ?thesis by auto
  qed
  consider (string) "c = 0x22" | (array) "c = 0x5B" | (object) "c = 0x7B"
    | (literal) "c \<noteq> 0x22" "c \<noteq> 0x5B" "c \<noteq> 0x7B"
    by blast
  then show ?thesis
  proof cases
    case string
    with a pc(1) obtain str where p: "parse_chars cs = Some (str, r)" and v: "v = JStr str"
      by (auto split: option.splits)
    show ?thesis
    proof (rule flat)
      show "length r \<le> length cs" using parse_chars_shorter [OF p] by simp
      show "parse_value num (Suc g) s = Some (v, r)" for g
        using pc(1) [OF string, where f = g] p v by simp
    qed
  next
    case array
    show ?thesis
    proof (cases "skip_ws cs")
      case Nil
      with a pc(2) [OF array] show ?thesis by simp
    next
      case (Cons d ds)
      show ?thesis
      proof (cases "d = 0x5D")
        case True
        with a pc(3) [OF array, where ds = ds and f = f] Cons have v: "v = JArr []" and r: "r = ds" by auto
        show ?thesis
        proof (rule flat)
          show "length r \<le> length cs" using length_skip_ws [of cs] Cons r by simp
          show "parse_value num (Suc g) s = Some (v, r)" for g
            using pc(3) [OF array, where ds = ds and f = g] Cons True v r by simp
        qed
      next
        case False
        with a pc(4) [OF array Cons False, where f = "f"] obtain vs where v: "v = JArr vs"
          and p: "parse_elements num f cs = Some (vs, r)"
          by (auto split: option.splits)
        from el [OF p] have l: "length r < length cs"
          and e: "\<And>g. length cs - length r \<le> g \<Longrightarrow> parse_elements num g cs = Some (vs, r)"
          by auto
        have "parse_value num g s = Some (v, r)" if g: "length s - length r \<le> g" for g
        proof -
          from g l len obtain g' where g': "g = Suc g'" and "length cs - length r \<le> g'"
            by (cases g) auto
          from e [OF this(2)] pc(4) [OF array Cons False, where f = "g'"] show ?thesis by (simp add: g' v)
        qed
        with l len show ?thesis by auto
      qed
    qed
  next
    case object
    show ?thesis
    proof (cases "skip_ws cs")
      case Nil
      with a pc(5) [OF object] show ?thesis by simp
    next
      case (Cons d ds)
      show ?thesis
      proof (cases "d = 0x7D")
        case True
        with a pc(6) [OF object, where ds = ds and f = f] Cons have v: "v = JObj []" and r: "r = ds" by auto
        show ?thesis
        proof (rule flat)
          show "length r \<le> length cs" using length_skip_ws [of cs] Cons r by simp
          show "parse_value num (Suc g) s = Some (v, r)" for g
            using pc(6) [OF object, where ds = ds and f = g] Cons True v r by simp
        qed
      next
        case False
        with a pc(7) [OF object Cons False, where f = "f"] obtain ms where v: "v = JObj (object_of ms)"
          and p: "parse_members num f cs = Some (ms, r)"
          by (auto split: option.splits)
        from mem [OF p] have l: "length r < length cs"
          and e: "\<And>g. length cs - length r \<le> g \<Longrightarrow> parse_members num g cs = Some (ms, r)"
          by auto
        have "parse_value num g s = Some (v, r)" if g: "length s - length r \<le> g" for g
        proof -
          from g l len obtain g' where g': "g = Suc g'" and "length cs - length r \<le> g'"
            by (cases g) auto
          from e [OF this(2)] pc(7) [OF object Cons False, where f = "g'"] show ?thesis by (simp add: g' v)
        qed
        with l len show ?thesis by auto
      qed
    qed
  next
    case literal
    from a pc(8) [OF literal, where f = f] have p: "parse_literal num (c # cs) = Some (v, r)" by simp
    show ?thesis
    proof (rule flat)
      show "length r \<le> length cs" using parse_literal_shorter [OF p] by simp
      show "parse_value num (Suc g) s = Some (v, r)" for g
        using pc(8) [OF literal, where f = g] p by simp
    qed
  qed
qed

lemma elements_fuel_step:
  assumes val: "\<And>s v r. parse_value num f s = Some (v, r) \<Longrightarrow>
      length r < length s \<and> (\<forall>g. length s - length r \<le> g \<longrightarrow> parse_value num g s = Some (v, r))"
    and el: "\<And>s vs r. parse_elements num f s = Some (vs, r) \<Longrightarrow>
      length r < length s \<and> (\<forall>g. length s - length r \<le> g \<longrightarrow> parse_elements num g s = Some (vs, r))"
    and a: "parse_elements num (Suc f) s = Some (vs, r)"
  shows "length r < length s \<and>
         (\<forall>g. length s - length r \<le> g \<longrightarrow> parse_elements num g s = Some (vs, r))"
proof -
  from a obtain v r1 where pv: "parse_value num f s = Some (v, r1)"
    by (auto split: option.splits)
  from a pv obtain c cs where sk: "skip_ws r1 = c # cs"
    by (cases "skip_ws r1") auto
  from val [OF pv] have l1: "length r1 < length s"
    and v: "\<And>g. length s - length r1 \<le> g \<Longrightarrow> parse_value num g s = Some (v, r1)"
    by auto
  have l2: "Suc (length cs) \<le> length r1" using length_skip_ws [of r1] sk by simp
  show ?thesis
  proof (cases "c = 0x2C")
    case True
    with a pv sk obtain vs' where p: "parse_elements num f cs = Some (vs', r)"
      and vs: "vs = v # vs'"
      by (auto split: option.splits)
    from el [OF p] have l3: "length r < length cs"
      and e: "\<And>g. length cs - length r \<le> g \<Longrightarrow> parse_elements num g cs = Some (vs', r)"
      by auto
    have "parse_elements num g s = Some (vs, r)" if g: "length s - length r \<le> g" for g
    proof -
      from g l1 l2 l3 obtain g' where g': "g = Suc g'" and 1: "length s - length r1 \<le> g'"
        and 2: "length cs - length r \<le> g'"
        by (cases g) auto
      from v [OF 1] e [OF 2] show ?thesis by (simp add: g' sk True vs)
    qed
    with l1 l2 l3 show ?thesis by auto
  next
    case False
    with a pv sk have c: "c = 0x5D" and r: "r = cs" and vs: "vs = [v]"
      by (auto split: if_splits)
    have "parse_elements num g s = Some (vs, r)" if g: "length s - length r \<le> g" for g
    proof -
      from g l1 l2 r obtain g' where g': "g = Suc g'" and 1: "length s - length r1 \<le> g'"
        by (cases g) auto
      from v [OF 1] show ?thesis by (simp add: g' sk c r vs)
    qed
    with l1 l2 r show ?thesis by auto
  qed
qed

lemma members_fuel_step:
  assumes val: "\<And>s v r. parse_value num f s = Some (v, r) \<Longrightarrow>
      length r < length s \<and> (\<forall>g. length s - length r \<le> g \<longrightarrow> parse_value num g s = Some (v, r))"
    and mem: "\<And>s ms r. parse_members num f s = Some (ms, r) \<Longrightarrow>
      length r < length s \<and> (\<forall>g. length s - length r \<le> g \<longrightarrow> parse_members num g s = Some (ms, r))"
    and a: "parse_members num (Suc f) s = Some (ms, r)"
  shows "length r < length s \<and>
         (\<forall>g. length s - length r \<le> g \<longrightarrow> parse_members num g s = Some (ms, r))"
proof -
  from a obtain q qs where sq: "skip_ws s = q # qs" by (cases "skip_ws s") auto
  from a sq have q: "q = 0x22" by (auto split: if_splits)
  from a sq q obtain k r0 where pk: "parse_chars qs = Some (k, r0)"
    by (auto split: option.splits)
  from a sq q pk obtain c cs where sc: "skip_ws r0 = c # cs" by (cases "skip_ws r0") auto
  from a sq q pk sc have c: "c = 0x3A" by (auto split: if_splits)
  from a sq q pk sc c obtain v r1 where pv: "parse_value num f cs = Some (v, r1)"
    by (auto split: option.splits)
  from a sq q pk sc c pv obtain e es where se: "skip_ws r1 = e # es" by (cases "skip_ws r1") auto
  have step: "parse_members num (Suc g) s =
      (if e = 0x2C then
         (case parse_members num g es of None \<Rightarrow> None | Some (ms, r') \<Rightarrow> Some ((k, v) # ms, r'))
       else if e = 0x7D then Some ([(k, v)], es) else None)"
    if "parse_value num g cs = Some (v, r1)" for g
    using that by (simp add: sq q pk sc c se)
  have l0: "Suc (length qs) \<le> length s" using length_skip_ws [of s] sq by simp
  have l1: "length r0 < length qs" by (rule parse_chars_shorter [OF pk])
  have l2: "Suc (length cs) \<le> length r0" using length_skip_ws [of r0] sc by simp
  from val [OF pv] have l3: "length r1 < length cs"
    and v: "\<And>g. length cs - length r1 \<le> g \<Longrightarrow> parse_value num g cs = Some (v, r1)"
    by auto
  have l4: "Suc (length es) \<le> length r1" using length_skip_ws [of r1] se by simp
  show ?thesis
  proof (cases "e = 0x2C")
    case True
    with a step [OF pv] obtain ms' where p: "parse_members num f es = Some (ms', r)"
      and ms: "ms = (k, v) # ms'"
      by (auto split: option.splits)
    from mem [OF p] have l5: "length r < length es"
      and m: "\<And>g. length es - length r \<le> g \<Longrightarrow> parse_members num g es = Some (ms', r)"
      by auto
    have "parse_members num g s = Some (ms, r)" if g: "length s - length r \<le> g" for g
    proof -
      from g l0 l1 l2 l3 l4 l5 obtain g' where g': "g = Suc g'" and 1: "length cs - length r1 \<le> g'"
        and 2: "length es - length r \<le> g'"
        by (cases g) auto
      from step [OF v [OF 1]] m [OF 2] show ?thesis by (simp add: g' True ms)
    qed
    with l0 l1 l2 l3 l4 l5 show ?thesis by auto
  next
    case False
    with a step [OF pv] have e: "e = 0x7D" and r: "r = es" and ms: "ms = [(k, v)]"
      by (auto split: if_splits)
    have "parse_members num g s = Some (ms, r)" if g: "length s - length r \<le> g" for g
    proof -
      from g l0 l1 l2 l3 l4 r obtain g' where g': "g = Suc g'" and 1: "length cs - length r1 \<le> g'"
        by (cases g) auto
      from step [OF v [OF 1]] show ?thesis by (simp add: g' e r ms)
    qed
    with l0 l1 l2 l3 l4 r show ?thesis by auto
  qed
qed

lemma fuel_enough:
  "(\<forall>s v r. parse_value num f s = Some (v, r) \<longrightarrow>
      length r < length s \<and> (\<forall>g. length s - length r \<le> g \<longrightarrow> parse_value num g s = Some (v, r))) \<and>
   (\<forall>s vs r. parse_elements num f s = Some (vs, r) \<longrightarrow>
      length r < length s \<and> (\<forall>g. length s - length r \<le> g \<longrightarrow> parse_elements num g s = Some (vs, r))) \<and>
   (\<forall>s ms r. parse_members num f s = Some (ms, r) \<longrightarrow>
      length r < length s \<and> (\<forall>g. length s - length r \<le> g \<longrightarrow> parse_members num g s = Some (ms, r)))"
proof (induction f)
  case 0
  show ?case by simp
next
  case (Suc f)
  then have val: "\<And>s v r. parse_value num f s = Some (v, r) \<Longrightarrow>
      length r < length s \<and> (\<forall>g. length s - length r \<le> g \<longrightarrow> parse_value num g s = Some (v, r))"
    and el: "\<And>s vs r. parse_elements num f s = Some (vs, r) \<Longrightarrow>
      length r < length s \<and> (\<forall>g. length s - length r \<le> g \<longrightarrow> parse_elements num g s = Some (vs, r))"
    and mem: "\<And>s ms r. parse_members num f s = Some (ms, r) \<Longrightarrow>
      length r < length s \<and> (\<forall>g. length s - length r \<le> g \<longrightarrow> parse_members num g s = Some (ms, r))"
    by blast+
  have 1: "\<forall>s v r. parse_value num (Suc f) s = Some (v, r) \<longrightarrow>
      length r < length s \<and> (\<forall>g. length s - length r \<le> g \<longrightarrow> parse_value num g s = Some (v, r))"
    by (intro allI impI) (rule value_fuel_step [OF el mem])
  have 2: "\<forall>s vs r. parse_elements num (Suc f) s = Some (vs, r) \<longrightarrow>
      length r < length s \<and> (\<forall>g. length s - length r \<le> g \<longrightarrow> parse_elements num g s = Some (vs, r))"
    by (intro allI impI) (rule elements_fuel_step [OF val el])
  have 3: "\<forall>s ms r. parse_members num (Suc f) s = Some (ms, r) \<longrightarrow>
      length r < length s \<and> (\<forall>g. length s - length r \<le> g \<longrightarrow> parse_members num g s = Some (ms, r))"
    by (intro allI impI) (rule members_fuel_step [OF val mem])
  from 1 2 3 show ?case by (intro conjI)
qed

text \<open>
  Whatever bound lets the descent read a value, the bound \<open>JSON_parse\<close> uses reads the same
  value: a text is rejected for its content only.
\<close>

lemma JSON_parse_any_bound:
  assumes "parse_value num f text = Some (v, r)" "skip_ws r = []"
  shows "JSON_parse num text = Some v"
proof -
  from fuel_enough [of num f]
  have "\<forall>s v r. parse_value num f s = Some (v, r) \<longrightarrow>
      length r < length s \<and> (\<forall>g. length s - length r \<le> g \<longrightarrow> parse_value num g s = Some (v, r))"
    by (rule conjunct1)
  from this [rule_format, OF assms(1)]
  have "\<forall>g. length text - length r \<le> g \<longrightarrow> parse_value num g text = Some (v, r)"
    by (rule conjunct2)
  from this [rule_format, of "Suc (length text)"]
  have "parse_value num (Suc (length text)) text = Some (v, r)" by simp
  with assms(2) show ?thesis by (simp add: JSON_parse_def del: parse_value.simps)
qed

lemma JSON_parse_bound_free:
  "JSON_parse num text = Some v \<longleftrightarrow>
     (\<exists>f r. parse_value num f text = Some (v, r) \<and> skip_ws r = [])"
proof
  assume "JSON_parse num text = Some v"
  then obtain r where "parse_value num (Suc (length text)) text = Some (v, r)" "skip_ws r = []"
    by (auto simp: JSON_parse_def split: option.splits if_splits simp del: parse_value.simps)
  then show "\<exists>f r. parse_value num f text = Some (v, r) \<and> skip_ws r = []"
    by blast
next
  assume "\<exists>f r. parse_value num f text = Some (v, r) \<and> skip_ws r = []"
  then show "JSON_parse num text = Some v" using JSON_parse_any_bound by blast
qed

subsection \<open>Boards\<close>

lemma plain_board: "plain (board_json b)"
  by (simp add: board_json_def section_json_def column_json_def task_json_def list_all_iff
      ascii_def own_keys_def enumerated_before_def array_index_def is_digit_def)

lemma board_json_inj: "board_json b = (board_json b' :: 'n json) \<Longrightarrow> b = b'"
proof -
  have t: "inj (task_json :: Task \<Rightarrow> 'n json)"
    by (rule injI) (simp add: task_json_def)
  have c: "inj (column_json :: Column \<Rightarrow> 'n json)"
    by (rule injI) (simp add: column_json_def inj_map_eq_map [OF t])
  have s: "inj (section_json :: Section \<Rightarrow> 'n json)"
    by (rule injI) (simp add: section_json_def inj_map_eq_map [OF c])
  assume "board_json b = (board_json b' :: 'n json)"
  then show ?thesis by (simp add: board_json_def inj_map_eq_map [OF s])
qed

text \<open>The exported text of a board with one empty section.\<close>

lemma exportData_example:
  "exportData ns (board_json [\<lparr>sec_id = ascii ''7'', sec_title = ascii ''A \"b\"'', columns = []\<rparr>])
   = ascii ''['' @ [0x0A] @
     ascii ''  {'' @ [0x0A] @
     ascii ''    \"id\": \"7\",'' @ [0x0A] @
     ascii ''    \"title\": \"A '' @ [0x5C] @ ascii ''\"b'' @ [0x5C] @ ascii ''\"\",'' @ [0x0A] @
     ascii ''    \"columns\": []'' @ [0x0A] @
     ascii ''  }'' @ [0x0A] @
     ascii '']''"
  by (simp add: exportData_def JSON_stringify2_def board_json_def section_json_def ascii_def
      QuoteJSONString_def quote_unit_def is_leading_surrogate_def is_trailing_surrogate_def)

text \<open>
  Claim C5. Exporting a board and importing the exported text gives the board back: the
  import accepts the text, reports nothing, and the new value is the value of the original
  board. The same holds for every array without numbers, whatever its elements are.
\<close>

theorem export_import_roundtrip:
  "importData num (Some (exportData ns (board_json b :: 'n json))) current
     = (board_json b :: 'n json, None) \<and>
   (\<forall>v :: 'n json. plain v \<and> isArray v \<longrightarrow>
      importData num (Some (exportData ns v)) current = (v, None))"
proof (intro conjI allI impI)
  have "JSON_parse num (JSON_stringify2 ns (board_json b :: 'n json)) = Some (board_json b)"
    by (rule JSON_roundtrip [OF plain_board])
  then show "importData num (Some (exportData ns (board_json b :: 'n json))) current
     = (board_json b :: 'n json, None)"
    by (simp add: importData_def exportData_def isArray_def board_json_def)
next
  fix v :: "'n json" assume v: "plain v \<and> isArray v"
  then have "JSON_parse num (JSON_stringify2 ns v) = Some v"
    by (simp add: JSON_roundtrip)
  with v show "importData num (Some (exportData ns v)) current = (v, None)"
    by (simp add: importData_def exportData_def)
qed

theorem export_import_roundtrip_witness:
  "importData id (Some (exportData id (board_json initialSections))) JNull
     = (board_json initialSections :: jsstring json, None) \<and>
   plain (JArr [JObj [(ascii ''id'', JStr (ascii ''x'')),
                      (ascii ''extra'', JArr [JNull, JBool True])]] :: jsstring json) \<and>
   isArray (JArr [JObj [(ascii ''id'', JStr (ascii ''x'')),
                        (ascii ''extra'', JArr [JNull, JBool True])]] :: jsstring json) \<and>
   importData id
     (Some (exportData id (JArr [JObj [(ascii ''id'', JStr (ascii ''x'')),
                                       (ascii ''extra'', JArr [JNull, JBool True])]])))
     JNull
     = (JArr [JObj [(ascii ''id'', JStr (ascii ''x'')),
                    (ascii ''extra'', JArr [JNull, JBool True])]] :: jsstring json, None)"
proof -
  let ?v = "JArr [JObj [(ascii ''id'', JStr (ascii ''x'')),
                        (ascii ''extra'', JArr [JNull, JBool True])]] :: jsstring json"
  have h: "plain ?v" "isArray ?v"
    by (simp_all add: isArray_def ascii_def own_keys_def enumerated_before_def array_index_def
        is_digit_def)
  from export_import_roundtrip [of id id initialSections JNull]
  have a: "importData id (Some (exportData id (board_json initialSections))) JNull
     = (board_json initialSections :: jsstring json, None)"
    and b: "\<forall>v :: jsstring json. plain v \<and> isArray v \<longrightarrow>
      importData id (Some (exportData id v)) JNull = (v, None)"
    by blast+
  from b h have "importData id (Some (exportData id ?v)) JNull = (?v, None)" by blast
  with a h show ?thesis by (intro conjI)
qed

lemma parse_example_object: "JSON_parse id (ascii ''{\"foo\":\"bar\"}'') = Some (JObj [(ascii ''foo'', JStr (ascii ''bar''))])"
  by (simp add: JSON_parse_def ascii_def skip_ws_def is_json_space_def object_of_def
      set_property_def cons_unit_def simple_escape_def)

text \<open>
  Keys that are array indices come first in the value read, in ascending order; a key that
  occurs twice keeps its first place and its last value.
\<close>

lemma parse_example_keys:
  "JSON_parse id (ascii ''{\"b\":true,\"10\":null,\"9\":null,\"01\":null,\"b\":false}'')
   = Some (JObj [(ascii ''9'', JNull), (ascii ''10'', JNull), (ascii ''b'', JBool False),
                 (ascii ''01'', JNull)])"
  by (simp add: JSON_parse_def ascii_def skip_ws_def is_json_space_def object_of_def
      set_property_def enumerated_before_def array_index_def decimal_value_def is_digit_def
      cons_unit_def simple_escape_def parse_literal_def)

lemma parse_example_garbage: "JSON_parse id (ascii ''not json'') = None"
  by (simp add: JSON_parse_def ascii_def skip_ws_def is_json_space_def scan_number_def scan_int_def
      scan_digits_def is_digit_def parse_literal_def)

lemma parse_example_array: "JSON_parse id (ascii ''[{\"title\": 5}, null]'')
   = Some (JArr [JObj [(ascii ''title'', JNum (ascii ''5''))], JNull])"
  by (simp add: JSON_parse_def ascii_def skip_ws_def is_json_space_def object_of_def
      set_property_def cons_unit_def simple_escape_def scan_number_def scan_int_def scan_frac_def scan_exp_def
      scan_digits_def is_digit_def parse_literal_def)

text \<open>
  Claim C6. When the text does not parse, or parses to a value that is not an array, the
  import leaves the current value as it is and reports an alert; when it parses to an array,
  that array is the new value as it stands, whatever its elements are.
\<close>

theorem import_checks_array_only:
  "(JSON_parse num text = None \<longrightarrow>
      importData num (Some text) current = (current, Some read_error_alert)) \<and>
   (\<forall>v. JSON_parse num text = Some v \<and> \<not> isArray v \<longrightarrow>
      importData num (Some text) current = (current, Some invalid_format_alert)) \<and>
   (\<forall>vs. JSON_parse num text = Some (JArr vs) \<longrightarrow>
      importData num (Some text) current = (JArr vs, None))"
  by (simp add: importData_def isArray_def)

theorem import_checks_array_only_witness:
  "JSON_parse id (ascii ''not json'') = None \<and>
   importData id (Some (ascii ''not json'')) (board_json initialSections)
     = (board_json initialSections, Some read_error_alert) \<and>
   JSON_parse id (ascii ''{\"foo\":\"bar\"}'') = Some (JObj [(ascii ''foo'', JStr (ascii ''bar''))]) \<and>
   \<not> isArray (JObj [(ascii ''foo'', JStr (ascii ''bar''))]) \<and>
   importData id (Some (ascii ''{\"foo\":\"bar\"}'')) (board_json initialSections)
     = (board_json initialSections, Some invalid_format_alert) \<and>
   JSON_parse id (ascii ''[{\"title\": 5}, null]'')
     = Some (JArr [JObj [(ascii ''title'', JNum (ascii ''5''))], JNull]) \<and>
   importData id (Some (ascii ''[{\"title\": 5}, null]'')) (board_json initialSections)
     = (JArr [JObj [(ascii ''title'', JNum (ascii ''5''))], JNull], None)"
proof -
  have n: "\<not> isArray (JObj [(ascii ''foo'', JStr (ascii ''bar''))])" by (simp add: isArray_def)
  from parse_example_garbage import_checks_array_only [of id "ascii ''not json''" "board_json initialSections"]
  have a: "importData id (Some (ascii ''not json'')) (board_json initialSections)
     = (board_json initialSections, Some read_error_alert)"
    by blast
  from parse_example_object n import_checks_array_only [of id "ascii ''{\"foo\":\"bar\"}''" "board_json initialSections"]
  have b: "importData id (Some (ascii ''{\"foo\":\"bar\"}'')) (board_json initialSections)
     = (board_json initialSections, Some invalid_format_alert)"
    by blast
  from parse_example_array import_checks_array_only [of id "ascii ''[{\"title\": 5}, null]''" "board_json initialSections"]
  have c: "importData id (Some (ascii ''[{\"title\": 5}, null]'')) (board_json initialSections)
     = (JArr [JObj [(ascii ''title'', JNum (ascii ''5''))], JNull], None)"
    by blast
  from parse_example_object parse_example_garbage parse_example_array n a b c show ?thesis by (intro conjI)
qed

end
